theory Spec2Isabelle
  imports
    Main
    "HOL-Library.Sublist"
    "HOL-Library.Char_ord"
    "HOL-Library.List_Lexorder"
    "HOL-Library.Option_ord"
    "HOL-Library.Product_Lexorder"
begin

section \<open>Python and SQLite strings\<close>

text \<open>
  A Python \<open>str\<close> is a \<open>string\<close>; a HOL character stands for a code point below 256.
  A value that may be \<open>None\<close> (or SQL \<open>NULL\<close>) is a \<open>string option\<close>.
\<close>

text \<open>\<open>str.isspace\<close> on one character, which is what \<open>str.strip()\<close> removes.\<close>

definition py_isspace :: "char \<Rightarrow> bool" where
  "py_isspace c \<longleftrightarrow>
     c \<in> {CHR 0x09, CHR 0x0A, CHR 0x0B, CHR 0x0C, CHR 0x0D,
          CHR 0x1C, CHR 0x1D, CHR 0x1E, CHR 0x1F, CHR 0x20, CHR 0x85, CHR 0xA0}"

definition lstrip :: "(char \<Rightarrow> bool) \<Rightarrow> string \<Rightarrow> string" where
  "lstrip P s = dropWhile P s"

definition rstrip :: "(char \<Rightarrow> bool) \<Rightarrow> string \<Rightarrow> string" where
  "rstrip P s = rev (dropWhile P (rev s))"

text \<open>\<open>s.strip()\<close>\<close>

definition strip :: "string \<Rightarrow> string" where
  "strip s = lstrip py_isspace (rstrip py_isspace s)"

text \<open>SQLite's \<open>TRIM(X)\<close> removes the space character only.\<close>

definition sql_trim :: "string \<Rightarrow> string" where
  "sql_trim s = lstrip (\<lambda>c. c = CHR 0x20) (rstrip (\<lambda>c. c = CHR 0x20) s)"

text \<open>\<open>s.replace("\\", "/")\<close>\<close>

definition replace_backslash :: "string \<Rightarrow> string" where
  "replace_backslash s = map (\<lambda>c. if c = CHR 0x5C then CHR ''/'' else c) s"

text \<open>\<open>str.lower\<close> on one character.\<close>

definition lower_char :: "char \<Rightarrow> char" where
  "lower_char c =
     (let n = (of_char c :: nat)
      in if (65 \<le> n \<and> n \<le> 90) \<or> (192 \<le> n \<and> n \<le> 222 \<and> n \<noteq> 215)
         then char_of (n + 32) else c)"

definition lower :: "string \<Rightarrow> string" where
  "lower s = map lower_char s"

text \<open>\<open>s.split(sep)\<close> for a separator that is not empty.\<close>

fun split_on :: "string \<Rightarrow> string \<Rightarrow> string list" where
  "split_on sep [] = [[]]"
| "split_on sep (c # cs) =
     (if sep \<noteq> [] \<and> prefix sep (c # cs)
      then [] # split_on sep (drop (length sep - 1) cs)
      else (case split_on sep cs of
              [] \<Rightarrow> [[c]]
            | b # bs \<Rightarrow> (c # b) # bs))"

text \<open>\<open>os.path.basename\<close> (posixpath): what follows the last slash.\<close>

definition basename :: "string \<Rightarrow> string" where
  "basename p = rev (takeWhile (\<lambda>c. c \<noteq> CHR ''/'') (rev p))"

text \<open>Python's \<open>a or b\<close> on values that are \<open>None\<close> or strings.\<close>

definition py_or :: "string option \<Rightarrow> string option \<Rightarrow> string option" where
  "py_or a b = (case a of None \<Rightarrow> b | Some s \<Rightarrow> if s = [] then b else a)"

text \<open>SQL's \<open>=\<close> in a \<open>WHERE\<close> clause: never true when a side is \<open>NULL\<close>.\<close>

definition sql_eq :: "string option \<Rightarrow> string option \<Rightarrow> bool" where
  "sql_eq a b = (case a of None \<Rightarrow> False | Some x \<Rightarrow> (case b of None \<Rightarrow> False | Some y \<Rightarrow> x = y))"

datatype error = OSError | IndexError | AttributeError | TypeError | ValueError

section \<open>db\_access.py\<close>

definition normalize_path :: "string option \<Rightarrow> string option" where
  "normalize_path path =
     (case path of
        None \<Rightarrow> None
      | Some s \<Rightarrow>
          if s = [] then None
          else
            let p = strip (replace_backslash s)
            in if prefix ''uploads/'' p \<or> prefix ''/uploads/'' p
               then Some (lstrip (\<lambda>c. c = CHR ''/'') p)
               else Some (''uploads/'' @ basename p))"

subsection \<open>The table\<close>

text \<open>
  The nine text columns of \<open>verifications\<close>; this is also the dictionary that
  \<open>parse_session_block\<close> builds. A table row adds the surrogate key \<open>id\<close>, and a
  record returned by \<open>fetch_all_verifications\<close> adds \<open>date_str\<close>.
\<close>

record session =
  timestamp :: "string option"
  client_id :: "string option"
  status :: "string option"
  details :: "string option"
  name :: "string option"
  id_number :: "string option"
  email :: "string option"
  id_photo :: "string option"
  selfie_photo :: "string option"

record row = session +
  rid :: nat

record log_row = row +
  date_str :: "string option"

text \<open>The table in insertion order, and the largest key ever given out (AUTOINCREMENT).\<close>

record database =
  rows :: "row list"
  seq :: nat

definition insert_verification ::
  "database \<Rightarrow> string option \<Rightarrow> string option \<Rightarrow> string option \<Rightarrow> string option \<Rightarrow>
   string option \<Rightarrow> string option \<Rightarrow> string option \<Rightarrow> string option \<Rightarrow> string option \<Rightarrow>
   nat \<times> database" where
  "insert_verification d ts cid st det nm idn em idp sp =
     (let new_id = seq d + 1
      in (new_id,
          d\<lparr>rows := rows d @
                [\<lparr>timestamp = ts, client_id = cid, status = st, details = det, name = nm,
                  id_number = idn, email = em,
                  id_photo = normalize_path idp, selfie_photo = normalize_path sp,
                  rid = new_id\<rparr>],
            seq := new_id\<rparr>))"

text \<open>The loop body of \<open>fetch_all_verifications\<close> on one fetched row.\<close>

definition read_row :: "row \<Rightarrow> log_row" where
  "read_row r =
     \<lparr>timestamp = timestamp r, client_id = client_id r, status = status r,
      details = details r, name = name r, id_number = id_number r, email = email r,
      id_photo = normalize_path (id_photo r), selfie_photo = normalize_path (selfie_photo r),
      rid = rid r, date_str = timestamp r\<rparr>"

text \<open>
  \<open>ORDER BY datetime(timestamp) DESC, id DESC\<close>. SQLite's \<open>datetime()\<close> is the
  parameter \<open>dt\<close>; \<open>NULL\<close> sorts below every text, texts compare bytewise.
\<close>

definition fetch_all_verifications ::
  "(string option \<Rightarrow> string option) \<Rightarrow> database \<Rightarrow> log_row list" where
  "fetch_all_verifications dt d =
     map read_row (rev (sort_key (\<lambda>r. (dt (timestamp r), rid r)) (rows d)))"

subsection \<open>Files and the audit log\<close>

text \<open>
  \<open>files\<close> are the paths for which \<open>os.path.exists\<close> holds, \<open>locked\<close> those on which
  \<open>os.remove\<close> raises. \<open>audit_log\<close> is the content of \<open>LOG_FILE\<close>, \<open>None\<close> when the file
  does not exist; reading it raises when \<open>log_read_fails\<close>, writing it raises when
  \<open>log_write_fails\<close> and then leaves \<open>failed_write_leaves\<close> behind.
\<close>

record world =
  db :: database
  files :: "string set"
  locked :: "string set"
  audit_log :: "string option"
  log_read_fails :: bool
  log_write_fails :: bool
  failed_write_leaves :: "string option"

definition os_remove :: "world \<Rightarrow> string \<Rightarrow> error + world" where
  "os_remove w f =
     (if f \<notin> files w \<or> f \<in> locked w then Inl OSError
      else Inr (w\<lparr>files := files w - {f}\<rparr>))"

text \<open>
  \<open>if f and os.path.exists(f): try: os.remove(f) except Exception: print(...)\<close>
\<close>

definition remove_linked :: "world \<Rightarrow> string option \<Rightarrow> world" where
  "remove_linked w f =
     (case f of
        None \<Rightarrow> w
      | Some p \<Rightarrow>
          if p \<noteq> [] \<and> p \<in> files w
          then (case os_remove w p of Inl e \<Rightarrow> w | Inr w' \<Rightarrow> w')
          else w)"

text \<open>\<open>open(path, "r").read()\<close> and \<open>open(path, "w").write(s)\<close> on the audit log.\<close>

definition read_log :: "world \<Rightarrow> error + string" where
  "read_log w =
     (case audit_log w of
        None \<Rightarrow> Inl OSError
      | Some c \<Rightarrow> if log_read_fails w then Inl OSError else Inr c)"

definition write_log :: "world \<Rightarrow> string \<Rightarrow> (error + unit) \<times> world" where
  "write_log w s =
     (if log_write_fails w then (Inl OSError, w\<lparr>audit_log := failed_write_leaves w\<rparr>)
      else (Inr (), w\<lparr>audit_log := Some s\<rparr>))"

text \<open>\<open>"=" * 50 + "\n\n"\<close>\<close>

definition block_delim :: string where
  "block_delim = replicate 50 (CHR ''='') @ [CHR 0x0A, CHR 0x0A]"

text \<open>The first loop of \<open>_delete_audit_blocks_by_id_number\<close>: \<open>(kept, removed)\<close>.\<close>

fun prune_blocks :: "string \<Rightarrow> string list \<Rightarrow> string list \<times> nat" where
  "prune_blocks needle [] = ([], 0)"
| "prune_blocks needle (b # bs) =
     (let (kept, removed) = prune_blocks needle bs
      in if strip b = [] then (kept, removed)
         else if sublist needle b then (kept, removed + 1)
         else (b # kept, removed))"

text \<open>The second loop: \<open>new_content\<close>.\<close>

fun join_blocks :: "string list \<Rightarrow> string" where
  "join_blocks [] = []"
| "join_blocks (b # bs) =
     (if suffix [CHR 0x0A] b then b else b @ [CHR 0x0A]) @ block_delim @ join_blocks bs"

text \<open>
  \<open>_delete_audit_blocks_by_id_number\<close>, called for the default \<open>LOG_FILE\<close>: the number of
  removed blocks and the world afterwards. The body of its \<open>try\<close> is the part after the
  test that the file exists; a failed read or write ends in the \<open>except\<close> branch.
\<close>

definition delete_audit_blocks_by_id_number :: "world \<Rightarrow> string \<Rightarrow> nat \<times> world" where
  "delete_audit_blocks_by_id_number w idn =
     (case audit_log w of
        None \<Rightarrow> (0, w)
      | Some _ \<Rightarrow>
          (case read_log w of
             Inl e \<Rightarrow> (0, w)
           | Inr content \<Rightarrow>
               let blocks = split_on block_delim content;
                   (kept, removed) = prune_blocks (''ID Number: '' @ idn) blocks;
                   new_content = join_blocks kept
               in (case write_log w new_content of
                     (Inl e, w') \<Rightarrow> (0, w')
                   | (Inr u, w') \<Rightarrow> (removed, w'))))"

text \<open>\<open>for f in (id_photo, selfie_photo): ...\<close> on one selected row.\<close>

definition remove_row_files :: "world \<Rightarrow> row \<Rightarrow> world" where
  "remove_row_files w r = foldl remove_linked w [id_photo r, selfie_photo r]"

definition delete_verification :: "world \<Rightarrow> nat \<Rightarrow> world" where
  "delete_verification w rec_id =
     (let w1 = (case find (\<lambda>r. rid r = rec_id) (rows (db w)) of
                  None \<Rightarrow> w
                | Some r \<Rightarrow> remove_row_files w r)
      in w1\<lparr>db := (db w1)\<lparr>rows := filter (\<lambda>r. rid r \<noteq> rec_id) (rows (db w1))\<rparr>\<rparr>)"

text \<open>\<open>WHERE TRIM(id_number) = ?\<close> with the parameter \<open>id_number.strip()\<close>.\<close>

definition id_number_matches :: "string \<Rightarrow> row \<Rightarrow> bool" where
  "id_number_matches idn r = sql_eq (map_option sql_trim (id_number r)) (Some (strip idn))"

text \<open>The \<open>DELETE\<close> statement: \<open>(cur.rowcount, table afterwards)\<close>.\<close>

definition sql_delete_by_id_number :: "database \<Rightarrow> string \<Rightarrow> nat \<times> database" where
  "sql_delete_by_id_number d idn =
     (length (filter (id_number_matches idn) (rows d)),
      d\<lparr>rows := filter (\<lambda>r. \<not> id_number_matches idn r) (rows d)\<rparr>)"

definition delete_by_id_number :: "world \<Rightarrow> string \<Rightarrow> bool \<times> world" where
  "delete_by_id_number w idn =
     (let selected = filter (id_number_matches idn) (rows (db w));
          w1 = foldl remove_row_files w selected;
          (deleted_count, d') = sql_delete_by_id_number (db w1) idn;
          w2 = w1\<lparr>db := d'\<rparr>;
          (removed_blocks, w3) = delete_audit_blocks_by_id_number w2 idn
      in (deleted_count > 0 \<or> removed_blocks > 0, w3))"

section \<open>log\_to\_db.py\<close>

text \<open>
  The module reads \<open>dov_audit_log.txt\<close> in the working directory; the model takes it to
  be the audit log of the world above.
\<close>

text \<open>\<open>"--- Verification Session ---"\<close>\<close>

definition session_delim :: string where
  "session_delim = ''--- Verification Session ---''"

text \<open>\<open>line.split(key)[1].strip()\<close>\<close>

definition field_after :: "string \<Rightarrow> string \<Rightarrow> error + string" where
  "field_after key line =
     (case split_on key line of
        _ # v # _ \<Rightarrow> Inr (strip v)
      | _ \<Rightarrow> Inl IndexError)"

definition empty_session :: session where
  "empty_session =
     \<lparr>timestamp = None, client_id = None, status = None, details = None, name = None,
      id_number = None, email = None, id_photo = None, selfie_photo = None\<rparr>"

text \<open>The body of the loop over the lines of a block.\<close>

definition parse_line :: "session \<Rightarrow> string \<Rightarrow> error + session" where
  "parse_line s raw =
     (let line = strip raw
      in if prefix ''Timestamp:'' line
         then map_sum id (\<lambda>v. s\<lparr>timestamp := Some v\<rparr>) (field_after ''Timestamp:'' line)
         else if prefix ''ClientID:'' line
         then map_sum id (\<lambda>v. s\<lparr>client_id := Some v\<rparr>) (field_after ''ClientID:'' line)
         else if prefix ''Verification Status:'' line
         then map_sum id (\<lambda>v. s\<lparr>status := Some v\<rparr>) (field_after ''Verification Status:'' line)
         else if prefix ''Details:'' line
         then map_sum id (\<lambda>v. s\<lparr>details := Some v\<rparr>) (field_after ''Details:'' line)
         else if prefix ''Name:'' line
         then map_sum id (\<lambda>v. s\<lparr>name := Some v\<rparr>) (field_after ''Name:'' line)
         else if prefix ''ID Number:'' line
         then map_sum id (\<lambda>v. s\<lparr>id_number := Some v\<rparr>) (field_after ''ID Number:'' line)
         else if prefix ''Email:'' line
         then map_sum id (\<lambda>v. s\<lparr>email := Some v\<rparr>) (field_after ''Email:'' line)
         else if prefix ''ConsumerIDPhoto:'' line
         then map_sum id (\<lambda>v. s\<lparr>id_photo := Some v\<rparr>) (field_after ''ConsumerIDPhoto:'' line)
         else if prefix ''ConsumerCapturedPhoto:'' line
         then map_sum id (\<lambda>v. s\<lparr>selfie_photo := Some v\<rparr>)
                (field_after ''ConsumerCapturedPhoto:'' line)
         else Inr s)"

fun parse_lines :: "session \<Rightarrow> string list \<Rightarrow> error + session" where
  "parse_lines s [] = Inr s"
| "parse_lines s (l # ls) =
     (case parse_line s l of Inl e \<Rightarrow> Inl e | Inr s' \<Rightarrow> parse_lines s' ls)"

definition parse_session_block :: "string \<Rightarrow> error + session" where
  "parse_session_block block = parse_lines empty_session (split_on [CHR 0x0A] block)"

definition insert_into_db :: "database \<Rightarrow> session \<Rightarrow> database" where
  "insert_into_db d s =
     snd (insert_verification d (timestamp s) (client_id s) (status s) (details s) (name s)
            (id_number s) (email s) (id_photo s) (selfie_photo s))"

text \<open>\<open>"Timestamp:" in block and "ClientID:" in block\<close>\<close>

definition is_session_block :: "string \<Rightarrow> bool" where
  "is_session_block block \<longleftrightarrow> sublist ''Timestamp:'' block \<and> sublist ''ClientID:'' block"

text \<open>
  \<open>log['timestamp'] == session['timestamp'] and log['client_id'] == session['client_id']\<close>,
  Python's equality: \<open>None == None\<close> holds.
\<close>

definition same_pair :: "'a session_scheme \<Rightarrow> 'b session_scheme \<Rightarrow> bool" where
  "same_pair l s \<longleftrightarrow> timestamp l = timestamp s \<and> client_id l = client_id s"

text \<open>The loop of \<open>process_log_file\<close> over the blocks.\<close>

fun process_blocks ::
  "(string option \<Rightarrow> string option) \<Rightarrow> string list \<Rightarrow> database \<Rightarrow> error + database" where
  "process_blocks dt [] d = Inr d"
| "process_blocks dt (block # blocks) d =
     (if is_session_block block
      then (case parse_session_block block of
              Inl e \<Rightarrow> Inl e
            | Inr s \<Rightarrow>
                let exists = list_ex (\<lambda>l. same_pair l s) (fetch_all_verifications dt d)
                in if \<not> exists then process_blocks dt blocks (insert_into_db d s)
                   else process_blocks dt blocks d)
      else process_blocks dt blocks d)"

definition process_log_file ::
  "(string option \<Rightarrow> string option) \<Rightarrow> world \<Rightarrow> error + world" where
  "process_log_file dt w =
     (case read_log w of
        Inl e \<Rightarrow> Inl e
      | Inr content \<Rightarrow>
          map_sum id (\<lambda>d. w\<lparr>db := d\<rparr>) (process_blocks dt (split_on session_delim content) (db w)))"

text \<open>\<open>UPDATE verifications SET id_photo=?, selfie_photo=? WHERE timestamp=? AND client_id=?\<close>\<close>

definition sql_update_photos ::
  "database \<Rightarrow> string option \<Rightarrow> string option \<Rightarrow> string option \<Rightarrow> string option \<Rightarrow> database" where
  "sql_update_photos d new_id_photo new_selfie_photo ts cid =
     d\<lparr>rows := map (\<lambda>r. if sql_eq (timestamp r) ts \<and> sql_eq (client_id r) cid
                         then r\<lparr>id_photo := new_id_photo, selfie_photo := new_selfie_photo\<rparr>
                         else r) (rows d)\<rparr>"

text \<open>The inner loop of \<open>retrofill_photos\<close> over \<open>logs\<close>; the state is \<open>(updated_count, table)\<close>.\<close>

fun retrofill_logs :: "session \<Rightarrow> log_row list \<Rightarrow> nat \<times> database \<Rightarrow> nat \<times> database" where
  "retrofill_logs s [] (n, d) = (n, d)"
| "retrofill_logs s (l # ls) (n, d) =
     (if same_pair l s
      then (let new_id_photo = py_or (id_photo l) (id_photo s);
                new_selfie_photo = py_or (selfie_photo l) (selfie_photo s)
            in if new_id_photo \<noteq> id_photo l \<or> new_selfie_photo \<noteq> selfie_photo l
               then retrofill_logs s ls
                      (n + 1, sql_update_photos d new_id_photo new_selfie_photo
                                (timestamp l) (client_id l))
               else retrofill_logs s ls (n, d))
      else retrofill_logs s ls (n, d))"

text \<open>The outer loop over the blocks.\<close>

fun retrofill_blocks ::
  "log_row list \<Rightarrow> string list \<Rightarrow> nat \<times> database \<Rightarrow> error + nat \<times> database" where
  "retrofill_blocks logs [] st = Inr st"
| "retrofill_blocks logs (block # blocks) st =
     (if is_session_block block
      then (case parse_session_block block of
              Inl e \<Rightarrow> Inl e
            | Inr s \<Rightarrow> retrofill_blocks logs blocks (retrofill_logs s logs st))
      else retrofill_blocks logs blocks st)"

text \<open>\<open>retrofill_photos\<close>: the count it prints and the world afterwards.\<close>

definition retrofill_photos ::
  "(string option \<Rightarrow> string option) \<Rightarrow> world \<Rightarrow> error + nat \<times> world" where
  "retrofill_photos dt w =
     (let logs = fetch_all_verifications dt (db w)
      in case read_log w of
           Inl e \<Rightarrow> Inl e
         | Inr content \<Rightarrow>
             map_sum id (\<lambda>(n, d). (n, w\<lparr>db := d\<rparr>))
               (retrofill_blocks logs (split_on session_delim content) (0, db w)))"

section \<open>xds\_main.py\<close>

text \<open>
  One call of \<open>get_dov_result\<close>: it raises, or returns the text of the result element
  (\<open>None\<close> for an element without text). The service's answer to the \<open>i\<close>-th call is
  a parameter.
\<close>

datatype reply = Raises | Returns "string option"

text \<open>The sentinel starts with U+26D4, written here as its three UTF-8 bytes.\<close>

definition timeout_sentinel :: string where
  "timeout_sentinel =
     [CHR 0xE2, CHR 0x9B, CHR 0x94] @ '' DOV Result polling timed out after multiple attempts.''"

text \<open>\<open>for attempt in range(max_attempts)\<close>, from \<open>attempt\<close> with \<open>k\<close> rounds left.\<close>

fun poll_loop :: "(nat \<Rightarrow> string \<Rightarrow> string \<Rightarrow> reply) \<Rightarrow> string \<Rightarrow> string \<Rightarrow> nat \<Rightarrow> nat \<Rightarrow> string" where
  "poll_loop get_dov_result ticket enquiry_id attempt 0 = timeout_sentinel"
| "poll_loop get_dov_result ticket enquiry_id attempt (Suc k) =
     (let dov_result = (case get_dov_result attempt ticket enquiry_id of
                          Raises \<Rightarrow> Some []
                        | Returns r \<Rightarrow> r)
      in case dov_result of
           None \<Rightarrow> poll_loop get_dov_result ticket enquiry_id (Suc attempt) k
         | Some r \<Rightarrow>
             if r \<noteq> [] \<and> \<not> sublist ''<NoResult>'' r then r
             else poll_loop get_dov_result ticket enquiry_id (Suc attempt) k)"

definition poll_dov_result ::
  "(nat \<Rightarrow> string \<Rightarrow> string \<Rightarrow> reply) \<Rightarrow> string \<Rightarrow> string \<Rightarrow> int \<Rightarrow> string" where
  "poll_dov_result get_dov_result ticket enquiry_id max_attempts =
     poll_loop get_dov_result ticket enquiry_id 0 (nat max_attempts)"

section \<open>dashboard\_app.py\<close>

text \<open>
  A \<open>datetime\<close> is (year, month, day, hour, minute, second), compared lexicographically.
  \<open>datetime.now().year\<close> and \<open>datetime.strptime\<close> with the formats
  \<open>"%Y-%m-%d %H:%M:%S"\<close> and \<open>"%Y-%m-%d"\<close> are parameters; \<open>None\<close> stands for
  the \<open>ValueError\<close> of a text that does not match.
\<close>

type_synonym datetime = "int \<times> int \<times> int \<times> int \<times> int \<times> int"

definition dt_year :: "datetime \<Rightarrow> int" where
  "dt_year t = fst t"

definition dt_month :: "datetime \<Rightarrow> int" where
  "dt_month t = fst (snd t)"

record pyenv =
  now_year :: int
  strptime_ts :: "string \<Rightarrow> datetime option"
  strptime_date :: "string \<Rightarrow> datetime option"

text \<open>\<open>str.isdigit\<close>: the ASCII digits and the superscripts U+00B2, U+00B3, U+00B9.\<close>

definition ascii_digit :: "char \<Rightarrow> bool" where
  "ascii_digit c \<longleftrightarrow> 48 \<le> (of_char c :: nat) \<and> (of_char c :: nat) \<le> 57"

definition isdigit :: "string \<Rightarrow> bool" where
  "isdigit s \<longleftrightarrow>
     s \<noteq> [] \<and> list_all (\<lambda>c. ascii_digit c \<or> c \<in> {CHR 0xB2, CHR 0xB3, CHR 0xB9}) s"

text \<open>\<open>int(s)\<close> on a text that passed \<open>isdigit\<close>: the superscripts are refused.\<close>

definition py_int :: "string \<Rightarrow> error + int" where
  "py_int s =
     (if s \<noteq> [] \<and> list_all ascii_digit s
      then Inr (foldl (\<lambda>a c. 10 * a + (int (of_char c) - 48)) 0 s)
      else Inl ValueError)"

text \<open>\<open>request.args.get(key, default)\<close>\<close>

definition args_get :: "(string \<rightharpoonup> string) \<Rightarrow> string \<Rightarrow> string \<Rightarrow> string" where
  "args_get args k dflt = (case args k of None \<Rightarrow> dflt | Some v \<Rightarrow> v)"

text \<open>\<open>_to_uploads_url\<close>\<close>

definition to_uploads_url :: "string option \<Rightarrow> string" where
  "to_uploads_url path_value =
     (case path_value of
        None \<Rightarrow> []
      | Some s \<Rightarrow>
          if s = [] then []
          else let p = replace_backslash (strip s)
               in if \<not> prefix ''/'' p then ''/'' @ p else p)"

text \<open>The loop of \<open>index\<close> that puts the photo fields of a record into URL form.\<close>

definition with_upload_urls :: "log_row \<Rightarrow> log_row" where
  "with_upload_urls v =
     v\<lparr>id_photo := Some (to_uploads_url (id_photo v)),
       selfie_photo := Some (to_uploads_url (selfie_photo v))\<rparr>"

text \<open>A list comprehension whose condition may raise.\<close>

fun filter_err :: "('a \<Rightarrow> error + bool) \<Rightarrow> 'a list \<Rightarrow> error + 'a list" where
  "filter_err P [] = Inr []"
| "filter_err P (x # xs) =
     (case P x of
        Inl e \<Rightarrow> Inl e
      | Inr b \<Rightarrow>
          (case filter_err P xs of
             Inl e \<Rightarrow> Inl e
           | Inr ys \<Rightarrow> Inr (if b then x # ys else ys)))"

text \<open>\<open>datetime.strptime(v["timestamp"], "%Y-%m-%d %H:%M:%S")\<close>\<close>

definition ts_of :: "pyenv \<Rightarrow> log_row \<Rightarrow> error + datetime" where
  "ts_of env v =
     (case timestamp v of
        None \<Rightarrow> Inl TypeError
      | Some t \<Rightarrow> (case strptime_ts env t of None \<Rightarrow> Inl ValueError | Some d \<Rightarrow> Inr d))"

text \<open>\<open>v.get("status", "").lower() == status.lower()\<close>; the key is always there.\<close>

definition status_is :: "string \<Rightarrow> log_row \<Rightarrow> error + bool" where
  "status_is st v =
     (case status v of None \<Rightarrow> Inl AttributeError | Some s \<Rightarrow> Inr (lower s = lower st))"

definition name_has :: "string \<Rightarrow> log_row \<Rightarrow> error + bool" where
  "name_has nm v =
     (case name v of None \<Rightarrow> Inl AttributeError | Some s \<Rightarrow> Inr (sublist (lower nm) (lower s)))"

text \<open>The date filters run inside \<open>try ... except Exception: pass\<close>.\<close>

definition filter_date ::
  "pyenv \<Rightarrow> (datetime \<Rightarrow> datetime \<Rightarrow> bool) \<Rightarrow> string \<Rightarrow> log_row list \<Rightarrow> log_row list" where
  "filter_date env cmp bound logs =
     (if bound = [] then logs
      else (case strptime_date env bound of
              None \<Rightarrow> logs
            | Some b \<Rightarrow>
                (case filter_err (\<lambda>v. map_sum id (\<lambda>t. cmp t b) (ts_of env v)) logs of
                   Inl e \<Rightarrow> logs
                 | Inr ls \<Rightarrow> ls)))"

text \<open>
  \<open>sum(1 for v in logs if v.get("status", "").lower() == "success")\<close> and the same for
  \<open>"failed"\<close>: a record without status raises.
\<close>

definition count_status :: "string \<Rightarrow> log_row list \<Rightarrow> error + nat" where
  "count_status st logs = map_sum id length (filter_err (status_is st) logs)"

text \<open>
  \<open>max([v.get("timestamp") for v in logs], default="N/A")\<close>: with two or more records
  every one is compared, and comparing \<open>None\<close> raises; one record is returned as it is.
\<close>

definition last_date :: "log_row list \<Rightarrow> error + string option" where
  "last_date logs =
     (if logs = [] then Inr (Some ''N/A'')
      else if 2 \<le> length logs \<and> list_ex (\<lambda>v. timestamp v = None) logs then Inl TypeError
      else Inr (Max (set (map timestamp logs))))"

text \<open>Sequencing of steps that may raise.\<close>

definition then_do :: "error + 'a \<Rightarrow> ('a \<Rightarrow> error + 'b) \<Rightarrow> error + 'b" where
  "then_do r f = (case r of Inl e \<Rightarrow> Inl e | Inr x \<Rightarrow> f x)"

text \<open>
  \<open>index\<close> through the statistics: the \<open>logs\<close> handed to the template. The default of
  \<open>year\<close> is \<open>str(datetime.now().year)\<close>, which \<open>int\<close> reads back.
\<close>

definition index_logs ::
  "pyenv \<Rightarrow> (string option \<Rightarrow> string option) \<Rightarrow> (string \<rightharpoonup> string) \<Rightarrow> database \<Rightarrow>
   error + log_row list" where
  "index_logs env dt args d =
     (let status_arg = args_get args ''status'' ''all'';
          name_arg = strip (args_get args ''name'' []);
          id_number_arg = strip (args_get args ''id_number'' []);
          month_arg = args_get args ''month'' ''0'';
          date_from = args_get args ''date_from'' [];
          date_to = args_get args ''date_to'' []
      in
      then_do (if isdigit month_arg then py_int month_arg else Inr 0) (\<lambda>month.
      then_do (case args ''year'' of
                 None \<Rightarrow> Inr (now_year env)
               | Some y \<Rightarrow> if isdigit y then py_int y else Inr (now_year env)) (\<lambda>year.
      let logs0 = map with_upload_urls (fetch_all_verifications dt d)
      in
      then_do (if lower status_arg \<noteq> ''all'' then filter_err (status_is status_arg) logs0
               else Inr logs0) (\<lambda>logs1.
      then_do (if name_arg \<noteq> [] then filter_err (name_has name_arg) logs1
               else Inr logs1) (\<lambda>logs2.
      let logs3 = (if id_number_arg \<noteq> []
                   then filter (\<lambda>v. id_number v = Some id_number_arg) logs2 else logs2)
      in
      then_do (if month \<noteq> 0
               then filter_err (\<lambda>v. map_sum id (\<lambda>t. dt_month t = month) (ts_of env v)) logs3
               else Inr logs3) (\<lambda>logs4.
      then_do (if year \<noteq> 0
               then filter_err (\<lambda>v. map_sum id (\<lambda>t. dt_year t = year) (ts_of env v)) logs4
               else Inr logs4) (\<lambda>logs5.
      let logs6 = filter_date env (\<lambda>t b. t \<ge> b) date_from logs5;
          logs7 = filter_date env (\<lambda>t b. t \<le> b) date_to logs6
      in
      then_do (count_status ''success'' logs7) (\<lambda>success.
      then_do (count_status ''failed'' logs7) (\<lambda>failed.
      then_do (last_date logs7) (\<lambda>_. Inr logs7))))))))))"

section \<open>Notions used in the statements\<close>

text \<open>
  A reply that ends the polling: a text that is not empty and has no \<open><NoResult>\<close>.
\<close>

definition usable :: "reply \<Rightarrow> bool" where
  "usable rp \<longleftrightarrow>
     (case rp of
        Raises \<Rightarrow> False
      | Returns None \<Rightarrow> False
      | Returns (Some r) \<Rightarrow> r \<noteq> [] \<and> \<not> sublist ''<NoResult>'' r)"

text \<open>The key on which reconciliation compares a session with the stored rows.\<close>

definition pair_of :: "'a session_scheme \<Rightarrow> string option \<times> string option" where
  "pair_of r = (timestamp r, client_id r)"

text \<open>The columns that no statement of the program updates.\<close>

definition frame_of ::
  "row \<Rightarrow> nat \<times> string option \<times> string option \<times> string option \<times> string option \<times>
         string option \<times> string option \<times> string option" where
  "frame_of r =
     (rid r, timestamp r, client_id r, status r, details r, name r, id_number r, email r)"

text \<open>The sessions that the loops of \<open>log_to_db.py\<close> parse from a log.\<close>

definition log_sessions :: "string \<Rightarrow> session list" where
  "log_sessions content =
     List.map_filter
       (\<lambda>b. if is_session_block b
            then (case parse_session_block b of Inl e \<Rightarrow> None | Inr s \<Rightarrow> Some s)
            else None)
       (split_on session_delim content)"

text \<open>
  How a row may differ after a run of retrofill: the frame is the same, and the row is
  the same unless its pair is one of \<open>S\<close>.
\<close>

definition touched_only :: "(string option \<times> string option) set \<Rightarrow> row \<Rightarrow> row \<Rightarrow> bool" where
  "touched_only S r r' \<longleftrightarrow> frame_of r' = frame_of r \<and> (pair_of r \<notin> S \<longrightarrow> r' = r)"

text \<open>The status of a record equals \<open>st\<close> when both are put in lower case.\<close>

definition status_matches :: "string \<Rightarrow> 'a session_scheme \<Rightarrow> bool" where
  "status_matches st v \<longleftrightarrow> map_option lower (status v) = Some (lower st)"

section \<open>Concrete inputs\<close>

text \<open>States and inputs on which the theorems below are instantiated.\<close>

text \<open>A row whose stored photo path is not normalized.\<close>

definition legacy_row :: row where
  "legacy_row =
     \<lparr>timestamp = Some ''2024-01-01 10:00:00'', client_id = Some ''C1'',
      status = Some ''Success'', details = None, name = Some ''Ann'',
      id_number = Some ''111'', email = None,
      id_photo = Some ''/tmp/a.jpg'', selfie_photo = None, rid = 1\<rparr>"

definition legacy_db :: database where
  "legacy_db = \<lparr>rows = [legacy_row], seq = 1\<rparr>"

text \<open>A service that fails, has no result, answers without text, and then answers.\<close>

definition slow_service :: "nat \<Rightarrow> string \<Rightarrow> string \<Rightarrow> reply" where
  "slow_service i ticket enquiry_id =
     (if i = 0 then Raises
      else if i = 1 then Returns (Some ''<NoResult>'')
      else if i = 2 then Returns None
      else Returns (Some ''<Result>ok</Result>''))"

text \<open>
  An audit log of three sessions: one that \<open>legacy_db\<close> already holds, a new one, and
  the new one again.
\<close>

definition replay_log :: string where
  "replay_log =
     ''Timestamp: 2024-01-01 10:00:00\<newline>ClientID: C1\<newline>ID Number: 111\<newline>'' @
     ''--- Verification Session ---\<newline>'' @
     ''Timestamp: 2024-02-02 09:00:00\<newline>ClientID: C2\<newline>ID Number: 222\<newline>'' @
     ''--- Verification Session ---\<newline>'' @
     ''Timestamp: 2024-02-02 09:00:00\<newline>ClientID: C2\<newline>ID Number: 222\<newline>'' @
     ''--- Verification Session ---\<newline>''"

definition replay_world :: world where
  "replay_world =
     \<lparr>db = legacy_db, files = {}, locked = {}, audit_log = Some replay_log,
      log_read_fails = False, log_write_fails = False, failed_write_leaves = None\<rparr>"

definition replayed_row :: row where
  "replayed_row =
     \<lparr>timestamp = Some ''2024-02-02 09:00:00'', client_id = Some ''C2'',
      status = None, details = None, name = None,
      id_number = Some ''222'', email = None,
      id_photo = None, selfie_photo = None, rid = 2\<rparr>"

text \<open>A row without photos, and a log that has a photo for it.\<close>

definition bare_row :: row where
  "bare_row =
     \<lparr>timestamp = Some ''2024-01-01 10:00:00'', client_id = Some ''C1'',
      status = Some ''Success'', details = None, name = Some ''Ann'',
      id_number = Some ''111'', email = None,
      id_photo = None, selfie_photo = None, rid = 1\<rparr>"

definition photo_log :: string where
  "photo_log =
     ''Timestamp: 2024-01-01 10:00:00\<newline>ClientID: C1\<newline>'' @
     ''ConsumerIDPhoto: /tmp/a.jpg\<newline>'' @
     ''--- Verification Session ---\<newline>''"

definition raw_world :: world where
  "raw_world =
     \<lparr>db = \<lparr>rows = [bare_row], seq = 1\<rparr>, files = {}, locked = {},
      audit_log = Some photo_log,
      log_read_fails = False, log_write_fails = False, failed_write_leaves = None\<rparr>"

text \<open>
  Two stored rows and a log of two sessions: one for the first row, with a photo, and
  one that is not stored yet. No session is for the second row.
\<close>

definition frame_log :: string where
  "frame_log =
     photo_log @
     ''Timestamp: 2024-03-03 08:00:00\<newline>ClientID: C3\<newline>'' @
     ''--- Verification Session ---\<newline>''"

definition frame_world :: world where
  "frame_world =
     \<lparr>db = \<lparr>rows = [bare_row, replayed_row], seq = 2\<rparr>,
      files = {''uploads/ids/id_1.jpg''}, locked = {},
      audit_log = Some frame_log,
      log_read_fails = False, log_write_fails = False, failed_write_leaves = None\<rparr>"

text \<open>
  Two rows with the same (timestamp, client\_id) pair, the first with a photo, and a
  log that has another photo for that pair.
\<close>

definition kept_row :: row where
  "kept_row = bare_row\<lparr>id_photo := Some ''uploads/ids/old.jpg''\<rparr>"

definition twin_row :: row where
  "twin_row = bare_row\<lparr>rid := 2\<rparr>"

definition twin_log :: string where
  "twin_log =
     ''Timestamp: 2024-01-01 10:00:00\<newline>ClientID: C1\<newline>'' @
     ''ConsumerIDPhoto: uploads/ids/new.jpg\<newline>'' @
     ''--- Verification Session ---\<newline>''"

definition twin_world :: world where
  "twin_world =
     \<lparr>db = \<lparr>rows = [kept_row, twin_row], seq = 2\<rparr>, files = {}, locked = {},
      audit_log = Some twin_log,
      log_read_fails = False, log_write_fails = False, failed_write_leaves = None\<rparr>"

text \<open>
  A row with a photo file, and an audit log of two blocks in the format that the
  pruning writes, the first for the row's ID number.
\<close>

definition photo_row :: row where
  "photo_row = bare_row\<lparr>id_photo := Some ''uploads/ids/id_1.jpg''\<rparr>"

definition pruned_log :: string where
  "pruned_log =
     ''Timestamp: 2024-01-01 10:00:00\<newline>ID Number: 111\<newline>'' @ block_delim @
     ''Timestamp: 2024-02-02 09:00:00\<newline>ID Number: 222\<newline>'' @ block_delim"

definition clean_world :: world where
  "clean_world =
     \<lparr>db = \<lparr>rows = [photo_row, replayed_row], seq = 2\<rparr>,
      files = {''uploads/ids/id_1.jpg''}, locked = {},
      audit_log = Some pruned_log,
      log_read_fails = False, log_write_fails = False, failed_write_leaves = None\<rparr>"

text \<open>The same, with a photo file that cannot be removed and a log that cannot be read.\<close>

definition stuck_world :: world where
  "stuck_world = clean_world\<lparr>locked := {''uploads/ids/id_1.jpg''}, log_read_fails := True\<rparr>"

text \<open>The same, with a log that cannot be written.\<close>

definition full_disk_world :: world where
  "full_disk_world = clean_world\<lparr>log_write_fails := True, failed_write_leaves := Some []\<rparr>"

text \<open>
  Three stored rows with the statuses \<open>Success\<close>, \<open>FAILED\<close> and \<open>SUCCESS\<close>, the first
  from 2020, and an environment in the year 2026 whose \<open>strptime\<close> reads their
  timestamps.
\<close>

definition status_db :: database where
  "status_db =
     \<lparr>rows =
        [bare_row\<lparr>timestamp := Some ''2020-05-05 10:00:00''\<rparr>,
         bare_row\<lparr>timestamp := Some ''2026-01-02 11:00:00'', status := Some ''FAILED'',
                  rid := 2\<rparr>,
         bare_row\<lparr>timestamp := Some ''2026-03-04 12:00:00'', status := Some ''SUCCESS'',
                  rid := 3\<rparr>],
      seq = 3\<rparr>"

definition env_2026 :: pyenv where
  "env_2026 =
     \<lparr>now_year = 2026,
      strptime_ts = (\<lambda>s. if s = ''2020-05-05 10:00:00'' then Some (2020, 5, 5, 10, 0, 0)
                        else if s = ''2026-01-02 11:00:00'' then Some (2026, 1, 2, 11, 0, 0)
                        else if s = ''2026-03-04 12:00:00'' then Some (2026, 3, 4, 12, 0, 0)
                        else None),
      strptime_date = (\<lambda>s. None)\<rparr>"

text \<open>
  An audit log as \<open>log_verification_result\<close> writes it, with one session for the ID
  number 111 and one for 222, and \<open>clean_world\<close> with that log.
\<close>

definition writer_log :: string where
  "writer_log =
     ''Timestamp: 2024-01-01 10:00:00\<newline>Enquiry ID: 7\<newline>Enquiry Result ID: 8\<newline>'' @
     ''Status: Success\<newline>ID Number: 111\<newline>  Name: Ann\<newline>  ID Number: 111\<newline>'' @
     ''--- Verification Session ---\<newline>'' @
     ''Timestamp: 2024-02-02 09:00:00\<newline>Enquiry ID: 9\<newline>Enquiry Result ID: 10\<newline>'' @
     ''Status: Success\<newline>ID Number: 222\<newline>  Name: Bob\<newline>  ID Number: 222\<newline>'' @
     ''--- Verification Session ---\<newline>''"

definition writer_world :: world where
  "writer_world = clean_world\<lparr>audit_log := Some writer_log\<rparr>"

text \<open>A table whose only row has no timestamp.\<close>

definition undated_db :: database where
  "undated_db = \<lparr>rows = [bare_row\<lparr>timestamp := None\<rparr>], seq = 1\<rparr>"

section \<open>Properties of the string functions\<close>

lemma rstrip_last: "rstrip P s \<noteq> [] \<Longrightarrow> \<not> P (last (rstrip P s))"
  unfolding rstrip_def
  by (metis hd_dropWhile last_rev rev_is_Nil_conv)

lemma lstrip_last: "lstrip P s \<noteq> [] \<Longrightarrow> last (lstrip P s) = last s"
  unfolding lstrip_def
  by (metis append_Nil2 last_appendR takeWhile_dropWhile_id)

lemma strip_last: "strip s \<noteq> [] \<Longrightarrow> \<not> py_isspace (last (strip s))"
  unfolding strip_def
  by (metis lstrip_last rstrip_last lstrip_def dropWhile.simps(1))

lemma strip_set: "set (strip s) \<subseteq> set s"
  unfolding strip_def lstrip_def rstrip_def
  by (metis set_dropWhileD set_rev subsetI)

lemma rstrip_id: "s = [] \<or> \<not> P (last s) \<Longrightarrow> rstrip P s = s"
  unfolding rstrip_def by (cases s rule: rev_cases) auto

lemma lstrip_id: "s = [] \<or> \<not> P (hd s) \<Longrightarrow> lstrip P s = s"
  unfolding lstrip_def by (cases s) auto

lemma replace_backslash_id: "CHR 0x5C \<notin> set s \<Longrightarrow> replace_backslash s = s"
  unfolding replace_backslash_def by (induction s) auto

lemma replace_backslash_free: "CHR 0x5C \<notin> set (replace_backslash s)"
  unfolding replace_backslash_def by (induction s) auto

lemma basename_suffix: "suffix (basename p) p"
  unfolding basename_def
  by (metis rev_rev_ident suffix_def takeWhile_dropWhile_id rev_append)

section \<open>Photo paths\<close>

text \<open>A path under \<open>uploads/\<close> without backslash and trailing blank is left as it is.\<close>

lemma normalize_path_uploads:
  assumes "CHR 0x5C \<notin> set t" and "t = [] \<or> \<not> py_isspace (last t)"
  shows "normalize_path (Some (''uploads/'' @ t)) = Some (''uploads/'' @ t)"
proof -
  let ?r = "''uploads/'' @ t"
  have nb: "CHR 0x5C \<notin> set ?r" using assms(1) by simp
  have l: "\<not> py_isspace (last ?r)" using assms(2) by (auto simp: py_isspace_def)
  have h: "\<not> py_isspace (hd ?r)" by (simp add: py_isspace_def)
  have "strip ?r = ?r" unfolding strip_def using l h
    by (simp add: rstrip_id lstrip_id del: append.simps)
  moreover have "lstrip (\<lambda>c. c = CHR ''/'') ?r = ?r" by (simp add: lstrip_def)
  ultimately show ?thesis using nb
    by (simp add: normalize_path_def replace_backslash_id del: append.simps)
qed

text \<open>Every result of \<open>normalize_path\<close> is \<open>None\<close> or such a path.\<close>

lemma normalize_path_form:
  "normalize_path p = None \<or>
   (\<exists>t. normalize_path p = Some (''uploads/'' @ t) \<and> CHR 0x5C \<notin> set t \<and>
        (t = [] \<or> \<not> py_isspace (last t)))"
proof (cases p)
  case None
  then show ?thesis by (simp add: normalize_path_def)
next
  case (Some s)
  show ?thesis
  proof (cases "s = []")
    case True
    with Some show ?thesis by (simp add: normalize_path_def)
  next
    case False
    define q where "q = strip (replace_backslash s)"
    have nb: "CHR 0x5C \<notin> set q"
      unfolding q_def using strip_set replace_backslash_free by blast
    have lq: "q \<noteq> [] \<Longrightarrow> \<not> py_isspace (last q)"
      unfolding q_def by (rule strip_last)
    consider (a) "prefix ''uploads/'' q"
      | (b) "\<not> prefix ''uploads/'' q" "prefix ''/uploads/'' q"
      | (c) "\<not> prefix ''uploads/'' q" "\<not> prefix ''/uploads/'' q"
      by blast
    then show ?thesis
    proof cases
      case a
      then obtain t where t: "q = ''uploads/'' @ t" by (auto simp: prefix_def)
      have "lstrip (\<lambda>c. c = CHR ''/'') q = q" unfolding t by (simp add: lstrip_def)
      hence "normalize_path p = Some (''uploads/'' @ t)"
        using Some False a t
        by (simp add: normalize_path_def q_def[symmetric] Let_def del: append.simps)
      moreover have "CHR 0x5C \<notin> set t" using nb t by simp
      moreover have "t = [] \<or> \<not> py_isspace (last t)" using lq t by auto
      ultimately show ?thesis by blast
    next
      case b
      then obtain t where t: "q = ''/uploads/'' @ t" by (auto simp: prefix_def)
      have "lstrip (\<lambda>c. c = CHR ''/'') q = ''uploads/'' @ t"
        unfolding t by (simp add: lstrip_def)
      hence "normalize_path p = Some (''uploads/'' @ t)"
        using Some False b t
        by (simp add: normalize_path_def q_def[symmetric] Let_def del: append.simps)
      moreover have "CHR 0x5C \<notin> set t" using nb t by simp
      moreover have "t = [] \<or> \<not> py_isspace (last t)" using lq t by auto
      ultimately show ?thesis by blast
    next
      case c
      have "normalize_path p = Some (''uploads/'' @ basename q)"
        using Some False c
        by (simp add: normalize_path_def q_def[symmetric] Let_def del: append.simps)
      moreover obtain u where u: "q = u @ basename q"
        using basename_suffix[of q] by (auto simp: suffix_def)
      have "CHR 0x5C \<notin> set (basename q)" using nb u by (metis Un_iff set_append)
      moreover have "basename q = [] \<or> \<not> py_isspace (last (basename q))"
        using lq u by (metis last_appendR append_is_Nil_conv)
      ultimately show ?thesis by blast
    qed
  qed
qed

lemma normalize_path_prefix: "normalize_path p = Some q \<Longrightarrow> prefix ''uploads/'' q"
  using normalize_path_form[of p] by auto

text \<open>
  C7. Normalizing a photo path twice gives the same result as normalizing it once,
  for every input: \<open>None\<close>, the empty text and any other text.
\<close>

theorem normalize_path_idempotent:
  "normalize_path (normalize_path p) = normalize_path p"
  using normalize_path_form[of p] normalize_path_uploads
  by (auto simp: normalize_path_def)

theorem normalize_path_idempotent_witness:
  "normalize_path (Some ''/tmp/a.jpg'') = Some ''uploads/a.jpg'' \<and>
   normalize_path (normalize_path (Some ''/tmp/a.jpg'')) = normalize_path (Some ''/tmp/a.jpg'')"
proof -
  have "normalize_path (Some ''/tmp/a.jpg'') = Some ''uploads/a.jpg''" by code_simp
  then show ?thesis
    using normalize_path_idempotent [of "Some ''/tmp/a.jpg''"] by simp
qed

text \<open>
  C10. Every record that \<open>fetch_all_verifications\<close> returns is a stored row whose two
  photo fields went through \<open>normalize_path\<close>: each is \<open>None\<close> or starts with
  \<open>uploads/\<close>, whatever was stored; and every stored row is returned.
\<close>

theorem fetch_all_verifications_normalized:
  "length (fetch_all_verifications dt d) = length (rows d) \<and>
   (\<forall>r \<in> set (fetch_all_verifications dt d).
      (\<exists>s \<in> set (rows d). r = read_row s) \<and>
      (case id_photo r of None \<Rightarrow> True | Some p \<Rightarrow> prefix ''uploads/'' p) \<and>
      (case selfie_photo r of None \<Rightarrow> True | Some p \<Rightarrow> prefix ''uploads/'' p))"
  by (auto simp: fetch_all_verifications_def read_row_def split: option.splits
           dest: normalize_path_prefix)

theorem fetch_all_verifications_normalized_witness:
  "fetch_all_verifications (\<lambda>t. t) legacy_db = [read_row legacy_row] \<and>
   id_photo legacy_row = Some ''/tmp/a.jpg'' \<and>
   id_photo (read_row legacy_row) = Some ''uploads/a.jpg'' \<and>
   prefix ''uploads/'' ''uploads/a.jpg''"
proof -
  have f: "fetch_all_verifications (\<lambda>t. t) legacy_db = [read_row legacy_row]"
    by (simp add: fetch_all_verifications_def legacy_db_def)
  have n: "normalize_path (Some ''/tmp/a.jpg'') = Some ''uploads/a.jpg''" by code_simp
  have p: "id_photo (read_row legacy_row) = Some ''uploads/a.jpg''"
    by (simp add: read_row_def legacy_row_def n)
  from fetch_all_verifications_normalized [of "\<lambda>t. t" legacy_db] f p
  show ?thesis by (simp add: legacy_row_def)
qed

section \<open>Polling\<close>

lemma poll_loop_step:
  "\<not> usable (g a t e) \<Longrightarrow> poll_loop g t e a (Suc k) = poll_loop g t e (Suc a) k"
  by (auto simp: usable_def split: reply.splits option.splits)

lemma poll_loop_hit:
  "g a t e = Returns (Some r) \<Longrightarrow> usable (g a t e) \<Longrightarrow> poll_loop g t e a (Suc k) = r"
  by (auto simp: usable_def)

lemma poll_loop_timeout:
  "(\<And>j. j < k \<Longrightarrow> \<not> usable (g (a + j) t e)) \<Longrightarrow> poll_loop g t e a k = timeout_sentinel"
proof (induction k arbitrary: a)
  case 0
  show ?case by simp
next
  case (Suc k)
  have "\<not> usable (g a t e)" using Suc.prems[of 0] by simp
  moreover have "poll_loop g t e (Suc a) k = timeout_sentinel"
    using Suc.prems[of "Suc _"] by (intro Suc.IH) simp
  ultimately show ?case by (simp add: poll_loop_step del: poll_loop.simps)
qed

lemma poll_loop_first:
  "i < k \<Longrightarrow> g (a + i) t e = Returns (Some r) \<Longrightarrow> usable (g (a + i) t e) \<Longrightarrow>
   (\<And>j. j < i \<Longrightarrow> \<not> usable (g (a + j) t e)) \<Longrightarrow> poll_loop g t e a k = r"
proof (induction k arbitrary: a i)
  case 0
  then show ?case by simp
next
  case (Suc k)
  show ?case
  proof (cases i)
    case 0
    with Suc.prems show ?thesis by (simp add: poll_loop_hit del: poll_loop.simps)
  next
    case (Suc i')
    have "\<not> usable (g a t e)" using Suc.prems(4)[of 0] Suc by simp
    moreover have "poll_loop g t e (Suc a) k = r"
    proof (rule Suc.IH[of i'])
      show "i' < k" using Suc.prems(1) Suc by simp
      show "g (Suc a + i') t e = Returns (Some r)" using Suc.prems(2) Suc by simp
      show "usable (g (Suc a + i') t e)" using Suc.prems(3) Suc by simp
      show "\<And>j. j < i' \<Longrightarrow> \<not> usable (g (Suc a + j) t e)"
        using Suc.prems(4)[of "Suc _"] Suc by simp
    qed
    ultimately show ?thesis by (simp add: poll_loop_step del: poll_loop.simps)
  qed
qed

text \<open>
  C3. \<open>poll_dov_result\<close> returns the first reply, among the first \<open>max_attempts\<close>
  ones, that is a text, not empty and without \<open><NoResult>\<close>; when there is none it
  returns the timeout sentinel.
\<close>

theorem poll_dov_result_first_usable:
  "(\<forall>i r. i < nat n \<and> g i t e = Returns (Some r) \<and> usable (g i t e) \<and>
          (\<forall>j<i. \<not> usable (g j t e)) \<longrightarrow> poll_dov_result g t e n = r) \<and>
   ((\<forall>j < nat n. \<not> usable (g j t e)) \<longrightarrow> poll_dov_result g t e n = timeout_sentinel)"
  unfolding poll_dov_result_def
  using poll_loop_first[of _ "nat n" g 0 t e] poll_loop_timeout[of "nat n" g 0 t e]
  by auto

theorem poll_dov_result_first_usable_witness:
  "(3 < nat 30 \<and> slow_service 3 ''T'' ''E'' = Returns (Some ''<Result>ok</Result>'') \<and>
    usable (slow_service 3 ''T'' ''E'') \<and>
    \<not> usable (slow_service 0 ''T'' ''E'') \<and> \<not> usable (slow_service 1 ''T'' ''E'') \<and>
    \<not> usable (slow_service 2 ''T'' ''E'') \<and>
    poll_dov_result slow_service ''T'' ''E'' 30 = ''<Result>ok</Result>'') \<and>
   poll_dov_result slow_service ''T'' ''E'' 3 = timeout_sentinel"
proof -
  have u3: "usable (slow_service 3 ''T'' ''E'')" by code_simp
  have r3: "slow_service 3 ''T'' ''E'' = Returns (Some ''<Result>ok</Result>'')" by code_simp
  have n0: "\<not> usable (slow_service 0 ''T'' ''E'')"
    and n1: "\<not> usable (slow_service 1 ''T'' ''E'')"
    and n2: "\<not> usable (slow_service 2 ''T'' ''E'')"
    by (simp_all add: slow_service_def usable_def sublist_code)
  have n: "\<forall>j<3. \<not> usable (slow_service j ''T'' ''E'')"
  proof (intro allI impI)
    fix j :: nat assume "j < 3"
    then consider "j = 0" | "j = 1" | "j = 2" by linarith
    then show "\<not> usable (slow_service j ''T'' ''E'')"
      using n0 n1 n2 by cases simp_all
  qed
  have h30: "(3::nat) < nat 30" by simp
  have n3: "\<forall>j < nat 3. \<not> usable (slow_service j ''T'' ''E'')" using n by simp
  from poll_dov_result_first_usable [of 30 slow_service "''T''" "''E''"] h30 u3 r3 n
  have a: "poll_dov_result slow_service ''T'' ''E'' 30 = ''<Result>ok</Result>''" by blast
  from poll_dov_result_first_usable [of 3 slow_service "''T''" "''E''"] n3
  have b: "poll_dov_result slow_service ''T'' ''E'' 3 = timeout_sentinel" by blast
  show ?thesis using h30 u3 r3 n0 n1 n2 a b by blast
qed

section \<open>Parsing the audit log\<close>

lemma split_on_not_Nil: "split_on sep s \<noteq> []"
  by (induction sep s rule: split_on.induct) (auto split: list.splits)

lemma split_on_prefix:
  assumes "sep \<noteq> []" and "prefix sep s"
  shows "\<exists>v rest. split_on sep s = [] # v # rest"
proof -
  from assms obtain c cs where s: "s = c # cs" by (cases s) auto
  have "split_on sep s = [] # split_on sep (drop (length sep - 1) cs)"
    using assms s by simp
  moreover obtain v rest where "split_on sep (drop (length sep - 1) cs) = v # rest"
    using split_on_not_Nil by (meson list.exhaust)
  ultimately show ?thesis by simp
qed

lemma field_after_total:
  "key \<noteq> [] \<Longrightarrow> prefix key line \<Longrightarrow> \<exists>v. field_after key line = Inr v"
  using split_on_prefix[of key line] by (auto simp: field_after_def)

lemma if_returns:
  "(c \<Longrightarrow> \<exists>x. a = Inr x) \<Longrightarrow> (\<exists>x. b = Inr x) \<Longrightarrow> \<exists>x. (if c then a else b) = Inr x"
  by simp

lemma parse_line_total: "\<exists>s'. parse_line s raw = Inr s'"
proof -
  have k: "\<And>key f. prefix key (strip raw) \<Longrightarrow> key \<noteq> [] \<Longrightarrow>
             \<exists>s'. map_sum id f (field_after key (strip raw)) = Inr (s' :: session)"
    using field_after_total by fastforce
  show ?thesis
    unfolding parse_line_def Let_def
    by (intro if_returns k; simp)
qed

lemma parse_lines_total: "\<exists>s'. parse_lines s ls = Inr s'"
proof (induction ls arbitrary: s)
  case Nil
  show ?case by simp
next
  case (Cons l ls)
  obtain s1 where "parse_line s l = Inr s1" using parse_line_total by blast
  with Cons.IH[of s1] show ?case by simp
qed

lemma parse_session_block_total: "\<exists>s. parse_session_block block = Inr s"
  unfolding parse_session_block_def by (rule parse_lines_total)

section \<open>Reconciliation\<close>

lemma rows_insert_into_db:
  "\<exists>r. rows (insert_into_db d s) = rows d @ [r] \<and> pair_of r = pair_of s"
  by (simp add: insert_into_db_def insert_verification_def Let_def pair_of_def)

lemma exists_in_fetch:
  "list_ex (\<lambda>l. same_pair l s) (fetch_all_verifications dt d) \<longleftrightarrow>
   pair_of s \<in> pair_of ` set (rows d)"
  by (force simp: list_ex_iff fetch_all_verifications_def same_pair_def pair_of_def read_row_def
      image_iff)

lemma process_blocks_total: "\<exists>d'. process_blocks dt blocks d = Inr d'"
proof (induction blocks arbitrary: d)
  case Nil
  show ?case by simp
next
  case (Cons b bs)
  obtain s where "parse_session_block b = Inr s" using parse_session_block_total by blast
  then show ?case using Cons.IH by (simp add: Let_def)
qed

lemma process_blocks_fresh:
  "process_blocks dt blocks d = Inr d' \<Longrightarrow>
   \<exists>ins. rows d' = rows d @ ins \<and> distinct (map pair_of ins) \<and>
         (\<forall>r \<in> set ins. pair_of r \<notin> pair_of ` set (rows d))"
proof (induction blocks arbitrary: d)
  case Nil
  then show ?case by simp
next
  case (Cons b bs)
  show ?case
  proof (cases "is_session_block b")
    case False
    with Cons show ?thesis by simp
  next
    case True
    obtain s where s: "parse_session_block b = Inr s"
      using parse_session_block_total by blast
    show ?thesis
    proof (cases "pair_of s \<in> pair_of ` set (rows d)")
      case True
      with Cons \<open>is_session_block b\<close> s show ?thesis
        by (simp add: exists_in_fetch)
    next
      case False
      obtain r where r: "rows (insert_into_db d s) = rows d @ [r]" "pair_of r = pair_of s"
        using rows_insert_into_db by blast
      have "process_blocks dt bs (insert_into_db d s) = Inr d'"
        using Cons.prems \<open>is_session_block b\<close> s False by (simp add: exists_in_fetch)
      from Cons.IH[OF this] obtain ins where ins:
        "rows d' = rows (insert_into_db d s) @ ins" "distinct (map pair_of ins)"
        "\<forall>x \<in> set ins. pair_of x \<notin> pair_of ` set (rows (insert_into_db d s))"
        by blast
      have "rows d' = rows d @ (r # ins)" using ins(1) r(1) by simp
      moreover have "distinct (map pair_of (r # ins))"
        using ins(2,3) r by auto
      moreover have "\<forall>x \<in> set (r # ins). pair_of x \<notin> pair_of ` set (rows d)"
        using ins(3) r False by auto
      ultimately show ?thesis by blast
    qed
  qed
qed

text \<open>
  C4. When the audit log can be read, \<open>process_log_file\<close> returns, and the table
  afterwards is the table before followed by the inserted rows; no inserted row has a
  (timestamp, client\_id) pair of a row that was there before, and no two inserted rows
  have the same pair.
\<close>

theorem process_log_file_no_duplicates:
  assumes "read_log w = Inr content"
  shows "\<exists>w' ins. process_log_file dt w = Inr w' \<and>
           rows (db w') = rows (db w) @ ins \<and>
           distinct (map pair_of ins) \<and>
           (\<forall>r \<in> set ins. pair_of r \<notin> pair_of ` set (rows (db w)))"
proof -
  obtain d' where d': "process_blocks dt (split_on session_delim content) (db w) = Inr d'"
    using process_blocks_total by blast
  from process_blocks_fresh[OF d'] obtain ins where
    "rows d' = rows (db w) @ ins" "distinct (map pair_of ins)"
    "\<forall>r \<in> set ins. pair_of r \<notin> pair_of ` set (rows (db w))"
    by blast
  moreover have "process_log_file dt w = Inr (w\<lparr>db := d'\<rparr>)"
    using assms d' by (simp add: process_log_file_def)
  ultimately show ?thesis by auto
qed

theorem process_log_file_no_duplicates_witness:
  "read_log replay_world = Inr replay_log \<and>
   process_log_file (\<lambda>t. t) replay_world =
     Inr (replay_world\<lparr>db := \<lparr>rows = [legacy_row, replayed_row], seq = 2\<rparr>\<rparr>) \<and>
   (\<exists>w' ins. process_log_file (\<lambda>t. t) replay_world = Inr w' \<and>
      rows (db w') = rows (db replay_world) @ ins \<and>
      distinct (map pair_of ins) \<and>
      (\<forall>r \<in> set ins. pair_of r \<notin> pair_of ` set (rows (db replay_world))))"
proof -
  have r: "read_log replay_world = Inr replay_log"
    by (simp add: read_log_def replay_world_def)
  have p: "process_log_file (\<lambda>t. t) replay_world =
     Inr (replay_world\<lparr>db := \<lparr>rows = [legacy_row, replayed_row], seq = 2\<rparr>\<rparr>)"
    by code_simp
  from process_log_file_no_duplicates [OF r, of "\<lambda>t. t"] r p show ?thesis by blast
qed

section \<open>Retrofill and the frame of the table\<close>

lemma sql_eq_Some: "sql_eq a b \<Longrightarrow> a = b"
  by (auto simp: sql_eq_def split: option.splits)

lemma touched_only_refl: "touched_only S r r"
  by (simp add: touched_only_def)

lemma touched_only_trans:
  "touched_only S a b \<Longrightarrow> touched_only S b c \<Longrightarrow> touched_only S a c"
  by (auto simp: touched_only_def frame_of_def pair_of_def)

lemma list_all2_touched_refl: "list_all2 (touched_only S) xs xs"
  by (simp add: list_all2_refl touched_only_refl)

lemma list_all2_touched_trans:
  "list_all2 (touched_only S) xs ys \<Longrightarrow> list_all2 (touched_only S) ys zs \<Longrightarrow>
   list_all2 (touched_only S) xs zs"
  using list_all2_trans[of "touched_only S" "touched_only S" "touched_only S"]
    touched_only_trans by blast

lemma sql_update_photos_touched:
  assumes "(ts, cid) \<in> S"
  shows "list_all2 (touched_only S) (rows d) (rows (sql_update_photos d p1 p2 ts cid))"
proof -
  have "touched_only S r
          (if sql_eq (timestamp r) ts \<and> sql_eq (client_id r) cid
           then r\<lparr>id_photo := p1, selfie_photo := p2\<rparr> else r)" for r
    using assms sql_eq_Some[of "timestamp r" ts] sql_eq_Some[of "client_id r" cid]
    by (auto simp: touched_only_def frame_of_def pair_of_def)
  then show ?thesis
    by (simp add: sql_update_photos_def list_all2_map2 list_all2_refl)
qed

lemma retrofill_logs_touched:
  "pair_of s \<in> S \<Longrightarrow>
   list_all2 (touched_only S) (rows d) (rows (snd (retrofill_logs s logs (n, d))))"
proof (induction logs arbitrary: n d)
  case Nil
  show ?case by (simp add: list_all2_touched_refl)
next
  case (Cons l ls)
  show ?case
  proof (cases "same_pair l s \<and>
      (py_or (id_photo l) (id_photo s) \<noteq> id_photo l \<or>
       py_or (selfie_photo l) (selfie_photo s) \<noteq> selfie_photo l)")
    case False
    then show ?thesis using Cons.IH[OF Cons.prems, of d n] by (auto simp: Let_def)
  next
    case True
    define d1 where
      "d1 = sql_update_photos d (py_or (id_photo l) (id_photo s))
              (py_or (selfie_photo l) (selfie_photo s)) (timestamp l) (client_id l)"
    have "(timestamp l, client_id l) \<in> S"
      using True Cons.prems by (simp add: same_pair_def pair_of_def)
    hence "list_all2 (touched_only S) (rows d) (rows d1)"
      unfolding d1_def by (rule sql_update_photos_touched)
    moreover have "list_all2 (touched_only S) (rows d1)
                     (rows (snd (retrofill_logs s ls (n + 1, d1))))"
      by (rule Cons.IH[OF Cons.prems])
    moreover have "retrofill_logs s (l # ls) (n, d) = retrofill_logs s ls (n + 1, d1)"
      using True by (auto simp: Let_def d1_def)
    ultimately show ?thesis by (simp add: list_all2_touched_trans)
  qed
qed

lemma log_sessions_member:
  "b \<in> set (split_on session_delim content) \<Longrightarrow> is_session_block b \<Longrightarrow>
   parse_session_block b = Inr s \<Longrightarrow> s \<in> set (log_sessions content)"
  by (force simp: log_sessions_def List.map_filter_def)

lemma retrofill_blocks_touched:
  "retrofill_blocks logs blocks st = Inr st' \<Longrightarrow>
   (\<And>b s. b \<in> set blocks \<Longrightarrow> is_session_block b \<Longrightarrow> parse_session_block b = Inr s \<Longrightarrow>
           pair_of s \<in> S) \<Longrightarrow>
   list_all2 (touched_only S) (rows (snd st)) (rows (snd st'))"
proof (induction blocks arbitrary: st)
  case Nil
  then show ?case by (simp add: list_all2_touched_refl)
next
  case (Cons b bs)
  have rest: "pair_of s \<in> S"
    if "b' \<in> set bs" "is_session_block b'" "parse_session_block b' = Inr s" for b' s
    using Cons.prems(2)[of b' s] that by simp
  show ?case
  proof (cases "is_session_block b")
    case False
    with Cons.prems(1) have "retrofill_blocks logs bs st = Inr st'" by simp
    from Cons.IH[OF this rest] show ?thesis by simp
  next
    case True
    obtain s where s: "parse_session_block b = Inr s"
      using parse_session_block_total by blast
    have S: "pair_of s \<in> S" using Cons.prems(2)[of b s] True s by simp
    obtain n d where st: "st = (n, d)" by (cases st)
    have "retrofill_blocks logs bs (retrofill_logs s logs st) = Inr st'"
      using Cons.prems(1) True s by simp
    from Cons.IH[OF this rest]
    have "list_all2 (touched_only S) (rows (snd (retrofill_logs s logs st))) (rows (snd st'))"
      by simp
    moreover have "list_all2 (touched_only S) (rows (snd st)) (rows (snd (retrofill_logs s logs st)))"
      unfolding st using retrofill_logs_touched[OF S] by simp
    ultimately show ?thesis by (rule list_all2_touched_trans[rotated])
  qed
qed

lemma retrofill_photos_touched:
  assumes "read_log w = Inr content" and "retrofill_photos dt w = Inr (n, w')"
  shows "list_all2 (touched_only (pair_of ` set (log_sessions content)))
           (rows (db w)) (rows (db w'))"
proof -
  let ?S = "pair_of ` set (log_sessions content)"
  from assms obtain st' where
    st': "retrofill_blocks (fetch_all_verifications dt (db w))
            (split_on session_delim content) (0, db w) = Inr st'"
    and w': "w' = w\<lparr>db := snd st'\<rparr>"
    by (auto simp: retrofill_photos_def Let_def map_sum_def split: sum.splits prod.splits)
  have "list_all2 (touched_only ?S) (rows (snd (0 :: nat, db w))) (rows (snd st'))"
    by (rule retrofill_blocks_touched[OF st']) (auto dest: log_sessions_member)
  then show ?thesis using w' by simp
qed

lemma remove_linked_db: "db (remove_linked w f) = db w"
  by (auto simp: remove_linked_def os_remove_def split: option.splits)

lemma remove_row_files_db: "db (remove_row_files w r) = db w"
  by (simp add: remove_row_files_def remove_linked_db)

lemma foldl_remove_row_files_db: "db (foldl remove_row_files w rs) = db w"
  by (induction rs arbitrary: w) (simp_all add: remove_row_files_db)

lemma delete_audit_blocks_db: "db (snd (delete_audit_blocks_by_id_number w idn)) = db w"
  by (auto simp: delete_audit_blocks_by_id_number_def write_log_def read_log_def Let_def
      split: option.splits sum.splits prod.splits if_splits)

lemma delete_by_id_number_rows:
  "rows (db (snd (delete_by_id_number w idn))) =
   filter (\<lambda>r. \<not> id_number_matches idn r) (rows (db w))"
proof -
  define w1 where "w1 = foldl remove_row_files w (filter (id_number_matches idn) (rows (db w)))"
  define w2 where "w2 = w1\<lparr>db := snd (sql_delete_by_id_number (db w1) idn)\<rparr>"
  have "snd (delete_by_id_number w idn) = snd (delete_audit_blocks_by_id_number w2 idn)"
    by (simp add: delete_by_id_number_def Let_def w1_def w2_def split: prod.splits)
  hence "db (snd (delete_by_id_number w idn)) = db w2"
    by (simp add: delete_audit_blocks_db)
  also have "\<dots> = snd (sql_delete_by_id_number (db w) idn)"
    by (simp add: w2_def w1_def foldl_remove_row_files_db)
  finally show ?thesis by (simp add: sql_delete_by_id_number_def)
qed

lemma delete_verification_rows:
  "rows (db (delete_verification w k)) = filter (\<lambda>r. rid r \<noteq> k) (rows (db w))"
  by (simp add: delete_verification_def Let_def remove_row_files_db split: option.splits)

lemma process_log_file_prefix:
  "process_log_file dt w = Inr w' \<Longrightarrow> prefix (rows (db w)) (rows (db w'))"
proof -
  assume a: "process_log_file dt w = Inr w'"
  then obtain content where c: "read_log w = Inr content"
    by (auto simp: process_log_file_def split: sum.splits)
  from a c obtain d' where d': "process_blocks dt (split_on session_delim content) (db w) = Inr d'"
    and w': "w' = w\<lparr>db := d'\<rparr>"
    by (auto simp: process_log_file_def map_sum_def split: sum.splits)
  from process_blocks_fresh[OF d'] w' show ?thesis by auto
qed

text \<open>
  C6. A run of \<open>retrofill_photos\<close> keeps the number of rows and, in every row, the key
  and the columns timestamp, client\_id, status, details, name, id\_number and email;
  a row whose (timestamp, client\_id) pair is that of no session of the log is not
  changed at all. The other operations leave every row as it is: inserting and
  reconciling append rows, the two deletions remove rows.
\<close>

theorem only_retrofill_updates_photo_columns:
  "(read_log w = Inr content \<and> retrofill_photos dt w = Inr (n, w') \<longrightarrow>
      map frame_of (rows (db w')) = map frame_of (rows (db w)) \<and>
      (\<forall>i < length (rows (db w)).
         pair_of (rows (db w) ! i) \<notin> pair_of ` set (log_sessions content) \<longrightarrow>
         rows (db w') ! i = rows (db w) ! i)) \<and>
   prefix (rows d) (rows (snd (insert_verification d ts cid st det nm idn em idp sp))) \<and>
   (process_log_file dt w = Inr v \<longrightarrow> prefix (rows (db w)) (rows (db v))) \<and>
   rows (db (delete_verification w k)) = filter (\<lambda>r. rid r \<noteq> k) (rows (db w)) \<and>
   rows (db (snd (delete_by_id_number w idn'))) =
     filter (\<lambda>r. \<not> id_number_matches idn' r) (rows (db w))"
proof -
  have "map frame_of (rows (db w')) = map frame_of (rows (db w)) \<and>
      (\<forall>i < length (rows (db w)).
         pair_of (rows (db w) ! i) \<notin> pair_of ` set (log_sessions content) \<longrightarrow>
         rows (db w') ! i = rows (db w) ! i)"
    if "read_log w = Inr content" "retrofill_photos dt w = Inr (n, w')"
  proof -
    from retrofill_photos_touched[OF that]
    have t: "list_all2 (touched_only (pair_of ` set (log_sessions content)))
               (rows (db w)) (rows (db w'))" .
    hence len: "length (rows (db w')) = length (rows (db w))"
      by (simp add: list_all2_lengthD)
    have "map frame_of (rows (db w')) = map frame_of (rows (db w))"
      using t len by (auto simp: list_eq_iff_nth_eq list_all2_conv_all_nth touched_only_def)
    moreover have "\<forall>i < length (rows (db w)).
         pair_of (rows (db w) ! i) \<notin> pair_of ` set (log_sessions content) \<longrightarrow>
         rows (db w') ! i = rows (db w) ! i"
      using t by (auto simp: list_all2_conv_all_nth touched_only_def)
    ultimately show ?thesis by blast
  qed
  moreover have "prefix (rows d) (rows (snd (insert_verification d ts cid st det nm idn em idp sp)))"
    by (simp add: insert_verification_def Let_def)
  ultimately show ?thesis
    using process_log_file_prefix[of dt w v] delete_verification_rows[of w k]
      delete_by_id_number_rows[of w idn']
    by blast
qed

theorem only_retrofill_updates_photo_columns_witness:
  "read_log frame_world = Inr frame_log \<and>
   retrofill_photos (\<lambda>t. t) frame_world =
     Inr (1, frame_world\<lparr>db := \<lparr>rows = [bare_row\<lparr>id_photo := Some ''/tmp/a.jpg''\<rparr>,
                                            replayed_row], seq = 2\<rparr>\<rparr>) \<and>
   pair_of replayed_row \<notin> pair_of ` set (log_sessions frame_log) \<and>
   map frame_of [bare_row\<lparr>id_photo := Some ''/tmp/a.jpg''\<rparr>, replayed_row] =
     map frame_of [bare_row, replayed_row] \<and>
   process_log_file (\<lambda>t. t) frame_world =
     Inr (frame_world\<lparr>db := \<lparr>rows = [bare_row, replayed_row,
        \<lparr>timestamp = Some ''2024-03-03 08:00:00'', client_id = Some ''C3'',
         status = None, details = None, name = None, id_number = None, email = None,
         id_photo = None, selfie_photo = None, rid = 3\<rparr>], seq = 3\<rparr>\<rparr>) \<and>
   rows (db (delete_verification frame_world 2)) = [bare_row] \<and>
   rows (db (snd (delete_by_id_number frame_world ''111''))) = [replayed_row]"
proof -
  let ?w' = "frame_world\<lparr>db := \<lparr>rows = [bare_row\<lparr>id_photo := Some ''/tmp/a.jpg''\<rparr>,
                                            replayed_row], seq = 2\<rparr>\<rparr>"
  let ?w2 = "frame_world\<lparr>db := \<lparr>rows = [bare_row, replayed_row,
        \<lparr>timestamp = Some ''2024-03-03 08:00:00'', client_id = Some ''C3'',
         status = None, details = None, name = None, id_number = None, email = None,
         id_photo = None, selfie_photo = None, rid = 3\<rparr>], seq = 3\<rparr>\<rparr>"
  have r: "read_log frame_world = Inr frame_log"
    by (simp add: read_log_def frame_world_def)
  have f: "retrofill_photos (\<lambda>t. t) frame_world = Inr (1, ?w')"
    by code_simp
  have u: "pair_of replayed_row \<notin> pair_of ` set (log_sessions frame_log)"
    by code_simp
  have p: "process_log_file (\<lambda>t. t) frame_world = Inr ?w2"
    by code_simp
  have rw: "rows (db frame_world) = [bare_row, replayed_row]"
    by (simp add: frame_world_def)
  have m1: "id_number_matches ''111'' bare_row" by code_simp
  have m2: "\<not> id_number_matches ''111'' replayed_row" by code_simp
  have k: "rid bare_row = 1" "rid replayed_row = 2"
    by (simp_all add: bare_row_def replayed_row_def)
  note t = only_retrofill_updates_photo_columns
             [where w = frame_world and content = frame_log and dt = "\<lambda>t. t" and n = 1
                and w' = ?w' and v = ?w2 and k = 2 and idn' = "''111''"]
  have "map frame_of (rows (db ?w')) = map frame_of (rows (db frame_world))"
    using t r f by blast
  hence a: "map frame_of [bare_row\<lparr>id_photo := Some ''/tmp/a.jpg''\<rparr>, replayed_row] =
     map frame_of [bare_row, replayed_row]"
    by (simp add: rw)
  have b: "rows (db (delete_verification frame_world 2)) = [bare_row]"
    using t by (simp add: rw k)
  have c: "rows (db (snd (delete_by_id_number frame_world ''111''))) = [replayed_row]"
    using t by (simp add: rw m1 m2)
  show ?thesis using r f u a p b c by blast
qed

text \<open>Both ways of inserting store photo paths that went through \<open>normalize_path\<close>.\<close>

lemma insert_verification_normalized:
  assumes "insert_verification d ts cid st det nm idn em idp sp = (k, d')"
  shows "\<exists>r. rows d' = rows d @ [r] \<and>
           id_photo r = normalize_path idp \<and> selfie_photo r = normalize_path sp \<and>
           (\<forall>p. id_photo r = Some p \<or> selfie_photo r = Some p \<longrightarrow> prefix ''uploads/'' p)"
  using assms normalize_path_prefix
  by (auto simp: insert_verification_def Let_def)

text \<open>
  C2. The claim fails for the retrofill update: the photo value that the log holds is
  stored as it is. Here a row without photos and a log session with
  \<open>ConsumerIDPhoto: /tmp/a.jpg\<close> leave \<open>/tmp/a.jpg\<close> in the table, where
  \<open>normalize_path\<close> would have stored \<open>uploads/a.jpg\<close>.
\<close>

theorem retrofill_photos_stores_raw_path:
  "retrofill_photos (\<lambda>t. t) raw_world =
     Inr (1, raw_world\<lparr>db := \<lparr>rows = [bare_row\<lparr>id_photo := Some ''/tmp/a.jpg''\<rparr>],
                                seq = 1\<rparr>\<rparr>) \<and>
   \<not> prefix ''uploads/'' ''/tmp/a.jpg'' \<and>
   normalize_path (Some ''/tmp/a.jpg'') = Some ''uploads/a.jpg''"
  by code_simp

text \<open>
  Where the row's (timestamp, client\_id) pair is shared with no other row, retrofill
  does keep a stored photo path: a field for which \<open>normalize_path\<close> gives a path holds
  afterwards what was stored or that path, never the value of the log.
\<close>

lemma py_or_normalized:
  "normalize_path a = Some p \<Longrightarrow> py_or (normalize_path a) b = Some p"
  using normalize_path_prefix[of a p] by (auto simp: py_or_def)

lemma sql_update_photos_keep:
  assumes "i < length (rows d)"
    and "pair_of (rows d ! i) = (ts, cid) \<longrightarrow> (pa \<noteq> None \<longrightarrow> p1 = pa) \<and> (pb \<noteq> None \<longrightarrow> p2 = pb)"
    and "pa \<noteq> None \<longrightarrow> id_photo (rows d ! i) \<in> {a, pa}"
    and "pb \<noteq> None \<longrightarrow> selfie_photo (rows d ! i) \<in> {b, pb}"
  shows "pair_of (rows (sql_update_photos d p1 p2 ts cid) ! i) = pair_of (rows d ! i) \<and>
         length (rows (sql_update_photos d p1 p2 ts cid)) = length (rows d) \<and>
         (pa \<noteq> None \<longrightarrow> id_photo (rows (sql_update_photos d p1 p2 ts cid) ! i) \<in> {a, pa}) \<and>
         (pb \<noteq> None \<longrightarrow> selfie_photo (rows (sql_update_photos d p1 p2 ts cid) ! i) \<in> {b, pb})"
  using assms sql_eq_Some[of "timestamp (rows d ! i)" ts] sql_eq_Some[of "client_id (rows d ! i)" cid]
  by (auto simp: sql_update_photos_def pair_of_def)

lemma retrofill_logs_keep:
  assumes "i < length (rows d)" and "pair_of (rows d ! i) = k"
    and "\<forall>l \<in> set ls. pair_of l = k \<longrightarrow>
           id_photo l = normalize_path a \<and> selfie_photo l = normalize_path b"
    and "normalize_path a \<noteq> None \<longrightarrow> id_photo (rows d ! i) \<in> {a, normalize_path a}"
    and "normalize_path b \<noteq> None \<longrightarrow> selfie_photo (rows d ! i) \<in> {b, normalize_path b}"
  shows "pair_of (rows (snd (retrofill_logs s ls (n, d))) ! i) = k \<and>
         length (rows (snd (retrofill_logs s ls (n, d)))) = length (rows d) \<and>
         (normalize_path a \<noteq> None \<longrightarrow>
            id_photo (rows (snd (retrofill_logs s ls (n, d))) ! i) \<in> {a, normalize_path a}) \<and>
         (normalize_path b \<noteq> None \<longrightarrow>
            selfie_photo (rows (snd (retrofill_logs s ls (n, d))) ! i) \<in> {b, normalize_path b})"
  using assms
proof (induction ls arbitrary: n d)
  case Nil
  then show ?case by simp
next
  case (Cons l ls)
  show ?case
  proof (cases "same_pair l s \<and>
      (py_or (id_photo l) (id_photo s) \<noteq> id_photo l \<or>
       py_or (selfie_photo l) (selfie_photo s) \<noteq> selfie_photo l)")
    case False
    have "retrofill_logs s (l # ls) (n, d) = retrofill_logs s ls (n, d)"
      using False by (auto simp: Let_def)
    moreover have "\<forall>l \<in> set ls. pair_of l = k \<longrightarrow>
           id_photo l = normalize_path a \<and> selfie_photo l = normalize_path b"
      using Cons.prems(3) by simp
    ultimately show ?thesis using Cons.IH[OF Cons.prems(1,2) _ Cons.prems(4,5), of n] by simp
  next
    case True
    define d1 where
      "d1 = sql_update_photos d (py_or (id_photo l) (id_photo s))
              (py_or (selfie_photo l) (selfie_photo s)) (timestamp l) (client_id l)"
    have step: "retrofill_logs s (l # ls) (n, d) = retrofill_logs s ls (n + 1, d1)"
      using True by (auto simp: Let_def d1_def)
    have key: "pair_of (rows d ! i) = (timestamp l, client_id l) \<longrightarrow>
        (normalize_path a \<noteq> None \<longrightarrow> py_or (id_photo l) (id_photo s) = normalize_path a) \<and>
        (normalize_path b \<noteq> None \<longrightarrow> py_or (selfie_photo l) (selfie_photo s) = normalize_path b)"
    proof
      assume "pair_of (rows d ! i) = (timestamp l, client_id l)"
      hence "pair_of l = k" using Cons.prems(2) by (simp add: pair_of_def)
      hence "id_photo l = normalize_path a" "selfie_photo l = normalize_path b"
        using Cons.prems(3) by simp_all
      thus "(normalize_path a \<noteq> None \<longrightarrow> py_or (id_photo l) (id_photo s) = normalize_path a) \<and>
        (normalize_path b \<noteq> None \<longrightarrow> py_or (selfie_photo l) (selfie_photo s) = normalize_path b)"
        using py_or_normalized by auto
    qed
    from sql_update_photos_keep[OF Cons.prems(1) key Cons.prems(4,5)]
    have d1: "pair_of (rows d1 ! i) = k" "length (rows d1) = length (rows d)"
      "normalize_path a \<noteq> None \<longrightarrow> id_photo (rows d1 ! i) \<in> {a, normalize_path a}"
      "normalize_path b \<noteq> None \<longrightarrow> selfie_photo (rows d1 ! i) \<in> {b, normalize_path b}"
      using Cons.prems(2) by (simp_all add: d1_def)
    have i1: "i < length (rows d1)" using d1(2) Cons.prems(1) by simp
    have rest: "\<forall>l \<in> set ls. pair_of l = k \<longrightarrow>
           id_photo l = normalize_path a \<and> selfie_photo l = normalize_path b"
      using Cons.prems(3) by simp
    from Cons.IH[OF i1 d1(1) rest d1(3,4), of "n + 1"] d1(2) step
    show ?thesis by simp
  qed
qed

lemma retrofill_blocks_keep:
  assumes "retrofill_blocks logs blocks st = Inr st'"
    and "i < length (rows (snd st))" and "pair_of (rows (snd st) ! i) = k"
    and "\<forall>l \<in> set logs. pair_of l = k \<longrightarrow>
           id_photo l = normalize_path a \<and> selfie_photo l = normalize_path b"
    and "normalize_path a \<noteq> None \<longrightarrow> id_photo (rows (snd st) ! i) \<in> {a, normalize_path a}"
    and "normalize_path b \<noteq> None \<longrightarrow> selfie_photo (rows (snd st) ! i) \<in> {b, normalize_path b}"
  shows "(normalize_path a \<noteq> None \<longrightarrow> id_photo (rows (snd st') ! i) \<in> {a, normalize_path a}) \<and>
         (normalize_path b \<noteq> None \<longrightarrow> selfie_photo (rows (snd st') ! i) \<in> {b, normalize_path b})"
  using assms
proof (induction blocks arbitrary: st)
  case Nil
  then show ?case by simp
next
  case (Cons blk blks)
  show ?case
  proof (cases "is_session_block blk")
    case False
    with Cons.prems(1) have "retrofill_blocks logs blks st = Inr st'" by simp
    from Cons.IH[OF this Cons.prems(2-6)] show ?thesis .
  next
    case True
    obtain s where s: "parse_session_block blk = Inr s"
      using parse_session_block_total by blast
    obtain n d where st: "st = (n, d)" by (cases st)
    let ?st1 = "retrofill_logs s logs (n, d)"
    have r: "retrofill_blocks logs blks ?st1 = Inr st'"
      using Cons.prems(1) True s st by simp
    from retrofill_logs_keep[of i d k logs a b s n] Cons.prems(2-6) st
    have k1: "pair_of (rows (snd ?st1) ! i) = k" "length (rows (snd ?st1)) = length (rows d)"
      "normalize_path a \<noteq> None \<longrightarrow> id_photo (rows (snd ?st1) ! i) \<in> {a, normalize_path a}"
      "normalize_path b \<noteq> None \<longrightarrow> selfie_photo (rows (snd ?st1) ! i) \<in> {b, normalize_path b}"
      by simp_all
    have i1: "i < length (rows (snd ?st1))" using k1(2) Cons.prems(2) st by simp
    from Cons.IH[OF r i1 k1(1) Cons.prems(4) k1(3,4)] show ?thesis .
  qed
qed

lemma retrofill_photos_keeps_unique:
  assumes "retrofill_photos dt w = Inr (n, w')" and "i < length (rows (db w))"
    and "\<forall>j < length (rows (db w)). j \<noteq> i \<longrightarrow>
           pair_of (rows (db w) ! j) \<noteq> pair_of (rows (db w) ! i)"
  shows "(normalize_path (id_photo (rows (db w) ! i)) \<noteq> None \<longrightarrow>
            id_photo (rows (db w') ! i) \<in>
              {id_photo (rows (db w) ! i), normalize_path (id_photo (rows (db w) ! i))}) \<and>
         (normalize_path (selfie_photo (rows (db w) ! i)) \<noteq> None \<longrightarrow>
            selfie_photo (rows (db w') ! i) \<in>
              {selfie_photo (rows (db w) ! i), normalize_path (selfie_photo (rows (db w) ! i))})"
proof -
  let ?r = "rows (db w) ! i"
  let ?logs = "fetch_all_verifications dt (db w)"
  from assms(1) obtain content st' where
    st': "retrofill_blocks ?logs (split_on session_delim content) (0, db w) = Inr st'"
    and w': "w' = w\<lparr>db := snd st'\<rparr>"
    by (auto simp: retrofill_photos_def Let_def map_sum_def split: sum.splits prod.splits)
  have logs: "\<forall>l \<in> set ?logs. pair_of l = pair_of ?r \<longrightarrow>
           id_photo l = normalize_path (id_photo ?r) \<and>
           selfie_photo l = normalize_path (selfie_photo ?r)"
  proof (intro ballI impI)
    fix l assume "l \<in> set ?logs" and p: "pair_of l = pair_of ?r"
    then obtain r where r: "r \<in> set (rows (db w))" "l = read_row r"
      by (auto simp: fetch_all_verifications_def)
    then obtain j where j: "j < length (rows (db w))" "rows (db w) ! j = r"
      by (auto simp: in_set_conv_nth)
    have "pair_of r = pair_of ?r" using p r(2) by (simp add: pair_of_def read_row_def)
    hence "j = i" using assms(3) j by auto
    thus "id_photo l = normalize_path (id_photo ?r) \<and>
           selfie_photo l = normalize_path (selfie_photo ?r)"
      using j r(2) by (simp add: read_row_def)
  qed
  from retrofill_blocks_keep[OF st', of i "pair_of ?r" "id_photo ?r" "selfie_photo ?r"]
    assms(2) logs
  show ?thesis by (simp add: w')
qed

text \<open>
  C5. The claim fails when two rows have the same (timestamp, client\_id) pair: the
  update made for the row without a photo is keyed by the pair, so it also replaces the
  photo of the other row, \<open>uploads/ids/old.jpg\<close>, by the log's value. For a row whose
  pair is shared with no other row the claim holds (\<open>retrofill_photos_keeps_unique\<close>).
\<close>

theorem retrofill_photos_overwrites_twin:
  "id_photo kept_row = Some ''uploads/ids/old.jpg'' \<and>
   rows (db twin_world) = [kept_row, twin_row] \<and>
   retrofill_photos (\<lambda>t. t) twin_world =
     Inr (1, twin_world\<lparr>db := \<lparr>rows = [kept_row\<lparr>id_photo := Some ''uploads/ids/new.jpg''\<rparr>,
                                         twin_row\<lparr>id_photo := Some ''uploads/ids/new.jpg''\<rparr>],
                                 seq = 2\<rparr>\<rparr>)"
  by code_simp

section \<open>Deleting by ID number\<close>

lemma remove_linked_locked: "locked (remove_linked w f) = locked w"
  by (auto simp: remove_linked_def os_remove_def split: option.splits)

lemma remove_linked_files: "files (remove_linked w f) \<subseteq> files w"
  by (auto simp: remove_linked_def os_remove_def split: option.splits)

lemma remove_linked_gone:
  "p \<noteq> [] \<Longrightarrow> p \<notin> locked w \<Longrightarrow> p \<notin> files (remove_linked w (Some p))"
  by (auto simp: remove_linked_def os_remove_def)

lemma remove_row_files_locked: "locked (remove_row_files w r) = locked w"
  by (simp add: remove_row_files_def remove_linked_locked)

lemma remove_row_files_files: "files (remove_row_files w r) \<subseteq> files w"
  using remove_linked_files[of w "id_photo r"]
    remove_linked_files[of "remove_linked w (id_photo r)" "selfie_photo r"]
  by (auto simp: remove_row_files_def)

lemma remove_row_files_gone:
  assumes "id_photo r = Some p \<or> selfie_photo r = Some p" and "p \<noteq> []" and "p \<notin> locked w"
  shows "p \<notin> files (remove_row_files w r)"
proof -
  let ?w1 = "remove_linked w (id_photo r)"
  have l1: "p \<notin> locked ?w1" using assms(3) by (simp add: remove_linked_locked)
  from assms(1) show ?thesis
  proof
    assume "id_photo r = Some p"
    hence "p \<notin> files ?w1" using remove_linked_gone[OF assms(2,3)] by simp
    thus ?thesis using remove_linked_files[of ?w1 "selfie_photo r"]
      by (auto simp: remove_row_files_def)
  next
    assume "selfie_photo r = Some p"
    thus ?thesis using remove_linked_gone[OF assms(2) l1]
      by (simp add: remove_row_files_def)
  qed
qed

lemma foldl_remove_row_files_locked: "locked (foldl remove_row_files w rs) = locked w"
  by (induction rs arbitrary: w) (simp_all add: remove_row_files_locked)

lemma foldl_remove_row_files_files: "files (foldl remove_row_files w rs) \<subseteq> files w"
proof (induction rs arbitrary: w)
  case Nil
  show ?case by simp
next
  case (Cons r rs)
  show ?case using Cons.IH[of "remove_row_files w r"] remove_row_files_files[of w r] by auto
qed

lemma foldl_remove_row_files_gone:
  "r \<in> set rs \<Longrightarrow> id_photo r = Some p \<or> selfie_photo r = Some p \<Longrightarrow> p \<noteq> [] \<Longrightarrow>
   p \<notin> locked w \<Longrightarrow> p \<notin> files (foldl remove_row_files w rs)"
proof (induction rs arbitrary: w)
  case Nil
  then show ?case by simp
next
  case (Cons a rs)
  have l: "p \<notin> locked (remove_row_files w a)"
    using Cons.prems(4) by (simp add: remove_row_files_locked)
  show ?case
  proof (cases "r = a")
    case True
    hence "p \<notin> files (remove_row_files w a)"
      using remove_row_files_gone Cons.prems by blast
    thus ?thesis using foldl_remove_row_files_files[of "remove_row_files w a" rs] by auto
  next
    case False
    hence "r \<in> set rs" using Cons.prems(1) by simp
    from Cons.IH[OF this Cons.prems(2,3) l] show ?thesis by simp
  qed
qed

lemma delete_audit_blocks_files:
  "files (snd (delete_audit_blocks_by_id_number w idn)) = files w"
  by (auto simp: delete_audit_blocks_by_id_number_def write_log_def read_log_def Let_def
      split: option.splits sum.splits prod.splits if_splits)

lemma delete_by_id_number_unfold:
  "delete_by_id_number w idn =
     (let w2 = (foldl remove_row_files w (filter (id_number_matches idn) (rows (db w))))
                \<lparr>db := snd (sql_delete_by_id_number (db w) idn)\<rparr>
      in (0 < fst (sql_delete_by_id_number (db w) idn) \<or>
          0 < fst (delete_audit_blocks_by_id_number w2 idn),
          snd (delete_audit_blocks_by_id_number w2 idn)))"
  by (simp add: delete_by_id_number_def Let_def case_prod_beta foldl_remove_row_files_db)

lemma delete_audit_blocks_failure:
  "audit_log w = None \<or> log_read_fails w \<or> log_write_fails w \<Longrightarrow>
   fst (delete_audit_blocks_by_id_number w idn) = 0"
  by (auto simp: delete_audit_blocks_by_id_number_def write_log_def read_log_def Let_def
      split: option.splits sum.splits prod.splits)

text \<open>
  C9. Failures of the clean-up stay inside \<open>delete_by_id_number\<close>, whose model has no
  error result because each raising step sits under its handler: the log pruning
  returns 0 when the log cannot be read or written, a file whose removal raises is
  skipped, and the table afterwards and the value returned depend on no such failure:
  the rows are those of the \<open>DELETE\<close> statement, and with a failed pruning the result
  is whether that statement deleted a row.
\<close>

theorem delete_by_id_number_best_effort:
  "(log_read_fails w \<or> log_write_fails w \<longrightarrow>
      fst (delete_audit_blocks_by_id_number w idn) = 0) \<and>
   (os_remove w f = Inl e \<longrightarrow> remove_linked w (Some f) = w) \<and>
   db (snd (delete_by_id_number w idn)) = snd (sql_delete_by_id_number (db w) idn) \<and>
   (log_read_fails w \<or> log_write_fails w \<longrightarrow>
      fst (delete_by_id_number w idn) = (0 < fst (sql_delete_by_id_number (db w) idn)))"
proof -
  let ?w2 = "(foldl remove_row_files w (filter (id_number_matches idn) (rows (db w))))
                \<lparr>db := snd (sql_delete_by_id_number (db w) idn)\<rparr>"
  have flags: "log_read_fails ?w2 = log_read_fails w" "log_write_fails ?w2 = log_write_fails w"
  proof -
    have "log_read_fails (foldl remove_row_files v rs) = log_read_fails v \<and>
          log_write_fails (foldl remove_row_files v rs) = log_write_fails v" for v rs
      by (induction rs arbitrary: v)
         (auto simp: remove_row_files_def remove_linked_def os_remove_def split: option.splits)
    thus "log_read_fails ?w2 = log_read_fails w" "log_write_fails ?w2 = log_write_fails w"
      by simp_all
  qed
  have a: "log_read_fails w \<or> log_write_fails w \<longrightarrow>
      fst (delete_audit_blocks_by_id_number w idn) = 0"
    using delete_audit_blocks_failure by blast
  have b: "os_remove w f = Inl e \<longrightarrow> remove_linked w (Some f) = w"
    by (auto simp: remove_linked_def)
  have c: "db (snd (delete_by_id_number w idn)) = snd (sql_delete_by_id_number (db w) idn)"
    by (simp add: delete_by_id_number_unfold Let_def delete_audit_blocks_db)
  have d: "log_read_fails w \<or> log_write_fails w \<longrightarrow>
      fst (delete_by_id_number w idn) = (0 < fst (sql_delete_by_id_number (db w) idn))"
    using delete_audit_blocks_failure[of ?w2 idn] flags
    by (auto simp: delete_by_id_number_unfold Let_def)
  show ?thesis using a b c d by blast
qed

theorem delete_by_id_number_best_effort_witness:
  "log_read_fails stuck_world \<and>
   fst (delete_audit_blocks_by_id_number stuck_world ''111'') = 0 \<and>
   os_remove stuck_world ''uploads/ids/id_1.jpg'' = Inl OSError \<and>
   remove_linked stuck_world (Some ''uploads/ids/id_1.jpg'') = stuck_world \<and>
   snd (sql_delete_by_id_number (db stuck_world) ''111'') = \<lparr>rows = [replayed_row], seq = 2\<rparr> \<and>
   db (snd (delete_by_id_number stuck_world ''111'')) = \<lparr>rows = [replayed_row], seq = 2\<rparr> \<and>
   fst (delete_by_id_number stuck_world ''111'') \<and>
   log_write_fails full_disk_world \<and>
   fst (delete_audit_blocks_by_id_number full_disk_world ''111'') = 0 \<and>
   db (snd (delete_by_id_number full_disk_world ''111'')) = \<lparr>rows = [replayed_row], seq = 2\<rparr>"
proof -
  have r: "log_read_fails stuck_world" by (simp add: stuck_world_def)
  have o: "os_remove stuck_world ''uploads/ids/id_1.jpg'' = Inl OSError"
    by (simp add: os_remove_def stuck_world_def)
  have s: "snd (sql_delete_by_id_number (db stuck_world) ''111'') =
             \<lparr>rows = [replayed_row], seq = 2\<rparr>"
    by code_simp
  have n: "fst (sql_delete_by_id_number (db stuck_world) ''111'') = 1"
    by code_simp
  have wf: "log_write_fails full_disk_world" by (simp add: full_disk_world_def)
  have s': "snd (sql_delete_by_id_number (db full_disk_world) ''111'') =
             \<lparr>rows = [replayed_row], seq = 2\<rparr>"
    by code_simp
  note t1 = delete_by_id_number_best_effort
              [of stuck_world "''111''" "''uploads/ids/id_1.jpg''" OSError]
  note t2 = delete_by_id_number_best_effort
              [of full_disk_world "''111''" "''uploads/ids/id_1.jpg''" OSError]
  show ?thesis using t1 t2 r o s n wf s' by simp
qed

section \<open>Pruning the audit log\<close>

lemma split_on_hd_prefix: "split_on sep s = b # bs \<Longrightarrow> prefix b s"
proof (induction sep s arbitrary: b bs rule: split_on.induct)
  case (1 sep)
  then show ?case by simp
next
  case (2 sep c cs)
  show ?case
  proof (cases "sep \<noteq> [] \<and> prefix sep (c # cs)")
    case True
    with "2.prems" show ?thesis by auto
  next
    case False
    obtain b' bs' where sp: "split_on sep cs = b' # bs'"
      using split_on_not_Nil by (meson list.exhaust)
    from "2.IH"(2)[OF False sp] have "prefix b' cs" .
    with "2.prems" False sp show ?thesis by auto
  qed
qed

lemma split_on_sublist: "b \<in> set (split_on sep s) \<Longrightarrow> sublist b s"
proof (induction sep s arbitrary: b rule: split_on.induct)
  case (1 sep)
  then show ?case by simp
next
  case (2 sep c cs)
  show ?case
  proof (cases "sep \<noteq> [] \<and> prefix sep (c # cs)")
    case True
    with "2.prems" have "b = [] \<or> b \<in> set (split_on sep (drop (length sep - 1) cs))"
      by auto
    then show ?thesis
    proof
      assume "b = []" thus ?thesis by simp
    next
      assume "b \<in> set (split_on sep (drop (length sep - 1) cs))"
      from "2.IH"(1)[OF True this] have "sublist b (drop (length sep - 1) cs)" .
      moreover have "suffix (drop (length sep - 1) cs) (c # cs)"
        by (simp add: suffix_ConsI suffix_drop)
      ultimately show ?thesis
        by (meson sublist_order.order_trans suffix_imp_sublist)
    qed
  next
    case False
    obtain b' bs' where sp: "split_on sep cs = b' # bs'"
      using split_on_not_Nil by (meson list.exhaust)
    with "2.prems" False have "b = c # b' \<or> b \<in> set bs'" by auto
    then show ?thesis
    proof
      assume "b = c # b'"
      moreover have "prefix b' cs" using split_on_hd_prefix[OF sp] .
      ultimately show ?thesis by (simp add: prefix_imp_sublist)
    next
      assume "b \<in> set bs'"
      hence "b \<in> set (split_on sep cs)" using sp by simp
      from "2.IH"(2)[OF False this] show ?thesis by (simp add: sublist_Cons_right)
    qed
  qed
qed

lemma prune_blocks_filter:
  "prune_blocks needle bs =
     (filter (\<lambda>b. strip b \<noteq> [] \<and> \<not> sublist needle b) bs,
      length (filter (\<lambda>b. strip b \<noteq> [] \<and> sublist needle b) bs))"
  by (induction bs) (auto simp: Let_def)

lemma sublist_across_char:
  assumes "c \<notin> set n" and "sublist n (xs @ c # zs)"
  shows "sublist n xs \<or> sublist n zs"
proof -
  from assms(2) consider "sublist n xs" | "sublist n (c # zs)"
    | a b where "n = a @ b" "suffix a xs" "prefix b (c # zs)"
    by (auto simp: sublist_append)
  then show ?thesis
  proof cases
    case 1
    then show ?thesis by simp
  next
    case 2
    then show ?thesis using assms(1) by (cases n) (auto simp: sublist_Cons_right)
  next
    case 3
    show ?thesis
    proof (cases b)
      case Nil
      with 3 show ?thesis by (simp add: suffix_imp_sublist)
    next
      case (Cons y ys)
      with 3 have "c \<in> set n" by auto
      with assms(1) show ?thesis by simp
    qed
  qed
qed

lemma sublist_join_blocks:
  assumes "CHR 0x0A \<notin> set n" and "n \<noteq> []" and "hd n \<noteq> CHR ''=''"
  shows "sublist n (join_blocks ks) \<Longrightarrow> \<exists>k \<in> set ks. sublist n k"
proof (induction ks)
  case Nil
  then show ?case using assms(2) by simp
next
  case (Cons k ks)
  define e where "e = replicate 50 (CHR ''='')"
  have ne: "\<not> sublist n e"
    using assms(2,3) set_mono_sublist[of n e] by (cases n) (auto simp: e_def)
  define x where "x = (if suffix [CHR 0x0A] k then k else k @ [CHR 0x0A])"
  have j: "join_blocks (k # ks) = (x @ e) @ CHR 0x0A # ([] @ CHR 0x0A # join_blocks ks)"
    by (simp add: x_def e_def block_delim_def)
  from Cons.prems have "sublist n (x @ e) \<or> sublist n ([] @ CHR 0x0A # join_blocks ks)"
    unfolding j by (rule sublist_across_char[OF assms(1)])
  then consider "sublist n (x @ e)" | "sublist n (join_blocks ks)"
    using sublist_across_char[OF assms(1), of "[]" "join_blocks ks"] assms(2) by auto
  then show ?case
  proof cases
    case 2
    with Cons.IH show ?thesis by auto
  next
    case 1
    obtain k0 where k0: "x = k0 @ [CHR 0x0A]" "sublist k0 k"
      by (cases "suffix [CHR 0x0A] k") (auto simp: x_def suffix_def)
    from 1 have "sublist n k0 \<or> sublist n e"
      using sublist_across_char[OF assms(1), of k0 e] by (simp add: k0(1))
    with ne have "sublist n k0" by simp
    with k0(2) have "sublist n k" by (meson sublist_order.order_trans)
    then show ?thesis by auto
  qed
qed

lemma remove_linked_log:
  "audit_log (remove_linked w f) = audit_log w \<and>
   log_read_fails (remove_linked w f) = log_read_fails w \<and>
   log_write_fails (remove_linked w f) = log_write_fails w \<and>
   failed_write_leaves (remove_linked w f) = failed_write_leaves w"
  by (auto simp: remove_linked_def os_remove_def split: option.splits)

lemma foldl_remove_row_files_log:
  "audit_log (foldl remove_row_files w rs) = audit_log w \<and>
   log_read_fails (foldl remove_row_files w rs) = log_read_fails w \<and>
   log_write_fails (foldl remove_row_files w rs) = log_write_fails w \<and>
   failed_write_leaves (foldl remove_row_files w rs) = failed_write_leaves w"
  by (induction rs arbitrary: w) (simp_all add: remove_row_files_def remove_linked_log)

lemma delete_audit_blocks_done:
  assumes "read_log w = Inr c" and "\<not> log_write_fails w"
  shows "delete_audit_blocks_by_id_number w idn =
          (length (filter (\<lambda>b. strip b \<noteq> [] \<and> sublist (''ID Number: '' @ idn) b)
                     (split_on block_delim c)),
           w\<lparr>audit_log := Some (join_blocks
                (filter (\<lambda>b. strip b \<noteq> [] \<and> \<not> sublist (''ID Number: '' @ idn) b)
                   (split_on block_delim c)))\<rparr>)"
  using assms
  by (auto simp: delete_audit_blocks_by_id_number_def read_log_def write_log_def Let_def
      prune_blocks_filter simp del: append.simps split: option.splits if_splits)

lemma delete_audit_blocks_count:
  assumes "0 < fst (delete_audit_blocks_by_id_number w idn)"
  shows "\<exists>c. audit_log w = Some c \<and> sublist (''ID Number: '' @ idn) c"
proof -
  have ok: "audit_log w \<noteq> None \<and> \<not> log_read_fails w \<and> \<not> log_write_fails w"
    using assms delete_audit_blocks_failure[of w idn] by (cases "audit_log w") auto
  then obtain c where al: "audit_log w = Some c" by auto
  have c: "read_log w = Inr c" and wf: "\<not> log_write_fails w"
    using ok al by (simp_all add: read_log_def)
  from assms have "filter (\<lambda>b. strip b \<noteq> [] \<and> sublist (''ID Number: '' @ idn) b)
                     (split_on block_delim c) \<noteq> []"
    by (simp add: delete_audit_blocks_done[OF c wf] del: append.simps)
  then obtain b where "b \<in> set (split_on block_delim c)" "sublist (''ID Number: '' @ idn) b"
    by (auto simp: filter_empty_conv simp del: append.simps)
  hence "sublist (''ID Number: '' @ idn) c"
    using split_on_sublist by (meson sublist_order.order_trans)
  with al show ?thesis by blast
qed

text \<open>
  What \<open>delete_by_id_number\<close> does, in the terms of the code. It removes exactly the
  rows whose id\_number, trimmed of spaces by SQL, equals the stripped input. A photo
  file of such a row is gone afterwards unless its removal fails. When the audit log can
  be read and written, its chunks between lines of 50 \<open>=\<close> that contain \<open>ID Number: \<close>
  followed by the input as given are dropped and the other chunks that are not blank
  are kept. The result is false when no row matched and the log does not contain that
  text.
\<close>

lemma delete_by_id_number_effect:
  assumes "delete_by_id_number w idn = (ok, w')"
  shows "rows (db w') = filter (\<lambda>r. \<not> id_number_matches idn r) (rows (db w)) \<and>
         (\<forall>r \<in> set (rows (db w)). \<forall>p.
            id_number_matches idn r \<and> (id_photo r = Some p \<or> selfie_photo r = Some p) \<and>
            p \<noteq> [] \<and> p \<notin> locked w \<longrightarrow> p \<notin> files w') \<and>
         (read_log w = Inr c \<and> \<not> log_write_fails w \<longrightarrow>
            audit_log w' = Some (join_blocks
               (filter (\<lambda>b. strip b \<noteq> [] \<and> \<not> sublist (''ID Number: '' @ idn) b)
                  (split_on block_delim c))) \<and>
            (CHR 0x0A \<notin> set idn \<longrightarrow>
               (\<forall>c'. audit_log w' = Some c' \<longrightarrow> \<not> sublist (''ID Number: '' @ idn) c'))) \<and>
         ((\<forall>r \<in> set (rows (db w)). \<not> id_number_matches idn r) \<and>
          (\<forall>c. audit_log w = Some c \<longrightarrow> \<not> sublist (''ID Number: '' @ idn) c) \<longrightarrow> \<not> ok)"
proof -
  let ?needle = "''ID Number: '' @ idn"
  let ?sel = "filter (id_number_matches idn) (rows (db w))"
  let ?w1 = "foldl remove_row_files w ?sel"
  let ?w2 = "?w1\<lparr>db := snd (sql_delete_by_id_number (db w) idn)\<rparr>"
  from assms have w': "w' = snd (delete_audit_blocks_by_id_number ?w2 idn)"
    and ok: "ok = (0 < fst (sql_delete_by_id_number (db w) idn) \<or>
                   0 < fst (delete_audit_blocks_by_id_number ?w2 idn))"
    by (simp_all add: delete_by_id_number_unfold Let_def)
  have a: "rows (db w') = filter (\<lambda>r. \<not> id_number_matches idn r) (rows (db w))"
    using delete_by_id_number_rows[of w idn] assms by simp
  have files: "files w' = files ?w1"
    by (simp add: w' delete_audit_blocks_files)
  have b: "\<forall>r \<in> set (rows (db w)). \<forall>p.
            id_number_matches idn r \<and> (id_photo r = Some p \<or> selfie_photo r = Some p) \<and>
            p \<noteq> [] \<and> p \<notin> locked w \<longrightarrow> p \<notin> files w'"
    using foldl_remove_row_files_gone[of _ ?sel _ w] by (auto simp: files)
  have log2: "audit_log ?w2 = audit_log w" "log_read_fails ?w2 = log_read_fails w"
    "log_write_fails ?w2 = log_write_fails w"
    using foldl_remove_row_files_log[of w ?sel] by simp_all
  hence rl: "read_log ?w2 = read_log w" by (simp add: read_log_def split: option.splits)
  have c: "audit_log w' = Some (join_blocks
               (filter (\<lambda>b. strip b \<noteq> [] \<and> \<not> sublist ?needle b) (split_on block_delim c))) \<and>
            (CHR 0x0A \<notin> set idn \<longrightarrow>
               (\<forall>c'. audit_log w' = Some c' \<longrightarrow> \<not> sublist ?needle c'))"
    if r: "read_log w = Inr c" and wf: "\<not> log_write_fails w"
  proof -
    let ?kept = "filter (\<lambda>b. strip b \<noteq> [] \<and> \<not> sublist ?needle b) (split_on block_delim c)"
    have r2: "read_log ?w2 = Inr c" using r rl by simp
    have wf2: "\<not> log_write_fails ?w2" using wf log2 by simp
    have al: "audit_log w' = Some (join_blocks ?kept)"
      unfolding w' delete_audit_blocks_done[OF r2 wf2] by simp
    have "\<not> sublist ?needle (join_blocks ?kept)" if nl: "CHR 0x0A \<notin> set idn"
    proof
      assume "sublist ?needle (join_blocks ?kept)"
      moreover have "CHR 0x0A \<notin> set ?needle" using nl by simp
      moreover have "?needle \<noteq> []" "hd ?needle \<noteq> CHR ''=''" by simp_all
      ultimately obtain k where "k \<in> set ?kept" "sublist ?needle k"
        using sublist_join_blocks[of ?needle ?kept] by blast
      thus False by simp
    qed
    with al show ?thesis by simp
  qed
  have d: "\<not> ok"
    if nr: "\<forall>r \<in> set (rows (db w)). \<not> id_number_matches idn r"
      and nb: "\<forall>c. audit_log w = Some c \<longrightarrow> \<not> sublist ?needle c"
  proof -
    have "fst (sql_delete_by_id_number (db w) idn) = 0"
      using nr by (simp add: sql_delete_by_id_number_def filter_empty_conv)
    moreover have "\<not> 0 < fst (delete_audit_blocks_by_id_number ?w2 idn)"
      using delete_audit_blocks_count[of ?w2 idn] nb log2 by auto
    ultimately show ?thesis using ok by simp
  qed
  show ?thesis using a b c d by blast
qed

text \<open>
  C1. The claim fails for an input with blanks around the ID number: the rows are
  selected with the stripped input, the blocks of the log with the input as given. For
  the input \<open>" 111 "\<close> the row of 111 is deleted and its photo file removed, and the
  block of the log that mentions 111 stays.
\<close>

theorem delete_by_id_number_keeps_block_of_padded_id:
  "rows (db clean_world) = [photo_row, replayed_row] \<and>
   id_number photo_row = Some ''111'' \<and>
   strip '' 111 '' = ''111'' \<and>
   audit_log clean_world = Some pruned_log \<and>
   hd (split_on block_delim pruned_log) =
     ''Timestamp: 2024-01-01 10:00:00\<newline>ID Number: 111\<newline>'' \<and>
   fst (delete_by_id_number clean_world '' 111 '') \<and>
   rows (db (snd (delete_by_id_number clean_world '' 111 ''))) = [replayed_row] \<and>
   files (snd (delete_by_id_number clean_world '' 111 '')) = {} \<and>
   audit_log (snd (delete_by_id_number clean_world '' 111 '')) = Some pruned_log"
  by code_simp

text \<open>
  The pruning splits the log at lines of 50 \<open>=\<close>, which the writer of the log never
  writes: a log as the program writes it is one block, and deleting 111 empties it,
  the session of 222 included.
\<close>

lemma delete_by_id_number_wipes_writer_log:
  "split_on block_delim writer_log = [writer_log] \<and>
   sublist ''ID Number: 222'' writer_log \<and>
   audit_log (snd (delete_by_id_number writer_world ''111'')) = Some []"
  by code_simp

text \<open>
  The pruning tests for a substring: the input 11 matches no row, and yet the block of
  111 is removed and the result is true.
\<close>

lemma delete_by_id_number_prefix_removes_block:
  "\<not> id_number_matches ''11'' photo_row \<and> \<not> id_number_matches ''11'' replayed_row \<and>
   delete_by_id_number clean_world ''11'' =
     (True, clean_world\<lparr>audit_log :=
        Some (''Timestamp: 2024-02-02 09:00:00\<newline>ID Number: 222\<newline>'' @ block_delim)\<rparr>)"
  by code_simp

section \<open>The dashboard\<close>

lemma filter_err_subset: "filter_err P xs = Inr ys \<Longrightarrow> set ys \<subseteq> set xs"
  by (induction xs arbitrary: ys) (auto split: sum.splits if_splits)

lemma filter_err_holds: "filter_err P xs = Inr ys \<Longrightarrow> y \<in> set ys \<Longrightarrow> P y = Inr True"
  by (induction xs arbitrary: ys) (auto split: sum.splits if_splits)

lemma filter_date_subset: "set (filter_date env cmp b xs) \<subseteq> set xs"
  by (auto simp: filter_date_def split: option.splits sum.splits dest: filter_err_subset)

lemma then_do_Inr:
  assumes "then_do r f = Inr y"
  obtains x where "r = Inr x" and "f x = Inr y"
  using assms by (cases r) (auto simp: then_do_def)

lemma index_logs_chain:
  assumes "index_logs env dt args d = Inr logs"
    and "lower (args_get args ''status'' ''all'') \<noteq> ''all''"
  shows "\<exists>logs1. filter_err (status_is (args_get args ''status'' ''all''))
           (map with_upload_urls (fetch_all_verifications dt d)) = Inr logs1 \<and> set logs \<subseteq> set logs1"
proof -
  let ?logs0 = "map with_upload_urls (fetch_all_verifications dt d)"
  from assms(1) obtain month year logs1 logs2 logs4 logs5 where
    l1: "(if lower (args_get args ''status'' ''all'') \<noteq> ''all''
          then filter_err (status_is (args_get args ''status'' ''all'')) ?logs0
          else Inr ?logs0) = Inr logs1"
    and l2: "(if strip (args_get args ''name'' []) \<noteq> []
          then filter_err (name_has (strip (args_get args ''name'' []))) logs1
          else Inr logs1) = Inr logs2"
    and l4: "(if month \<noteq> 0
          then filter_err (\<lambda>v. map_sum id (\<lambda>t. dt_month t = month) (ts_of env v))
                 (if strip (args_get args ''id_number'' []) \<noteq> []
                  then filter (\<lambda>v. id_number v = Some (strip (args_get args ''id_number'' []))) logs2
                  else logs2)
          else Inr (if strip (args_get args ''id_number'' []) \<noteq> []
                  then filter (\<lambda>v. id_number v = Some (strip (args_get args ''id_number'' []))) logs2
                  else logs2)) = Inr logs4"
    and l5: "(if year \<noteq> 0
          then filter_err (\<lambda>v. map_sum id (\<lambda>t. dt_year t = year) (ts_of env v)) logs4
          else Inr logs4) = Inr logs5"
    and l7: "logs = filter_date env (\<lambda>t b. t \<le> b) (args_get args ''date_to'' [])
                     (filter_date env (\<lambda>t b. b \<le> t) (args_get args ''date_from'' []) logs5)"
    unfolding index_logs_def Let_def
    by (elim then_do_Inr) auto
  have s2: "set logs2 \<subseteq> set logs1"
    using l2 filter_err_subset by (fastforce split: if_splits)
  have s4: "set logs4 \<subseteq> set logs2"
    using l4 filter_err_subset by (fastforce split: if_splits)
  have s5: "set logs5 \<subseteq> set logs4"
    using l5 filter_err_subset by (fastforce split: if_splits)
  have s7: "set logs \<subseteq> set logs5"
    unfolding l7 using filter_date_subset by (meson subset_trans)
  have "filter_err (status_is (args_get args ''status'' ''all'')) ?logs0 = Inr logs1"
    using l1 assms(2) by simp
  moreover have "set logs \<subseteq> set logs1" using s2 s4 s5 s7 by blast
  ultimately show ?thesis by blast
qed

lemma filter_err_exact:
  "filter_err P xs = Inr ys \<Longrightarrow> ys = filter (\<lambda>x. P x = Inr True) xs"
  by (induction xs arbitrary: ys) (auto split: sum.splits if_splits)

lemma status_is_matches: "status_is st v = Inr True \<longleftrightarrow> status_matches st v"
  by (auto simp: status_is_def status_matches_def split: option.splits)

text \<open>A request with a status, \<open>year=0\<close> and nothing else runs the status filter only.\<close>

lemma index_logs_status_only:
  assumes "args ''status'' = Some st" and "lower st \<noteq> ''all''"
    and "args ''name'' = None" and "args ''id_number'' = None" and "args ''month'' = None"
    and "args ''year'' = Some ''0''" and "args ''date_from'' = None"
    and "args ''date_to'' = None"
  shows "index_logs env dt args d =
           then_do (filter_err (status_is st)
                      (map with_upload_urls (fetch_all_verifications dt d)))
             (\<lambda>logs1.
                then_do (count_status ''success'' logs1) (\<lambda>success.
                then_do (count_status ''failed'' logs1) (\<lambda>failed.
                then_do (last_date logs1) (\<lambda>_. Inr logs1))))"
proof -
  have z: "isdigit ''0''" "py_int ''0'' = Inr 0" by code_simp+
  have e: "strip [] = []" by (simp add: strip_def lstrip_def rstrip_def)
  show ?thesis
    using assms
    by (simp add: index_logs_def args_get_def z e filter_date_def then_do_def Let_def
        split: sum.splits)
qed

text \<open>The counts of the statistics do not raise on records that all have a status.\<close>

lemma count_status_total:
  "\<forall>v \<in> set logs. status v \<noteq> None \<Longrightarrow> \<exists>n. count_status st logs = Inr n"
proof -
  assume a: "\<forall>v \<in> set logs. status v \<noteq> None"
  have "\<exists>ys. filter_err (status_is st) logs = Inr ys" using a
    by (induction logs) (auto simp: status_is_def split: option.splits)
  thus ?thesis by (auto simp: count_status_def)
qed

text \<open>A single record without timestamp passes the statistics and is returned.\<close>

lemma index_returns_single_undated_row:
  "map_sum id (map (\<lambda>v. (rid v, timestamp v, status v)))
     (index_logs env_2026 (\<lambda>t. t) [''status'' \<mapsto> ''success'', ''year'' \<mapsto> ''0''] undated_db) =
   Inr [(1, None, Some ''Success'')]"
  by code_simp

text \<open>
  C8, as the code has it. When \<open>index\<close> returns for a \<open>status\<close> parameter other than
  \<open>all\<close>, every row it returns is a stored row whose status, in lower case, equals
  the parameter in lower case. The other filters apply as well, so not every such row
  is returned; the rows returned are exactly those when the request has \<open>year=0\<close> and
  no other filter.
\<close>

theorem index_status_filter_only_matching:
  assumes "index_logs env dt args d = Inr logs"
    and "args ''status'' = Some st" and "lower st \<noteq> ''all''"
  shows "(\<forall>v \<in> set logs.
            status_matches st v \<and>
            (\<exists>r \<in> set (rows d). rid v = rid r \<and> status v = status r)) \<and>
         (args ''name'' = None \<and> args ''id_number'' = None \<and> args ''month'' = None \<and>
          args ''year'' = Some ''0'' \<and> args ''date_from'' = None \<and> args ''date_to'' = None \<longrightarrow>
            logs = filter (status_matches st)
                     (map with_upload_urls (fetch_all_verifications dt d)))"
proof -
  let ?logs0 = "map with_upload_urls (fetch_all_verifications dt d)"
  have g: "args_get args ''status'' ''all'' = st" using assms(2) by (simp add: args_get_def)
  from index_logs_chain[OF assms(1)] assms(3) g obtain logs1 where
    f: "filter_err (status_is st) ?logs0 = Inr logs1" and sub: "set logs \<subseteq> set logs1"
    by auto
  have a: "status_matches st v \<and> (\<exists>r \<in> set (rows d). rid v = rid r \<and> status v = status r)"
    if v: "v \<in> set logs" for v
  proof -
    have v1: "v \<in> set logs1" using v sub by blast
    have "status_is st v = Inr True" using filter_err_holds[OF f v1] .
    hence m: "status_matches st v" by (simp add: status_is_matches)
    have "v \<in> set ?logs0" using filter_err_subset[OF f] v1 by blast
    hence "\<exists>r \<in> set (rows d). rid v = rid r \<and> status v = status r"
      by (auto simp: fetch_all_verifications_def read_row_def with_upload_urls_def)
    with m show ?thesis by blast
  qed
  have b: "logs = filter (status_matches st) (map with_upload_urls (fetch_all_verifications dt d))"
    if only: "args ''name'' = None \<and> args ''id_number'' = None \<and> args ''month'' = None \<and>
          args ''year'' = Some ''0'' \<and> args ''date_from'' = None \<and> args ''date_to'' = None"
  proof -
    have "index_logs env dt args d =
            then_do (filter_err (status_is st) ?logs0)
              (\<lambda>logs1.
                then_do (count_status ''success'' logs1) (\<lambda>success.
                then_do (count_status ''failed'' logs1) (\<lambda>failed.
                then_do (last_date logs1) (\<lambda>_. Inr logs1))))"
      by (rule index_logs_status_only) (use assms(2,3) only in simp_all)
    hence "logs = logs1" using assms(1) f by (auto simp: then_do_def split: sum.splits)
    thus ?thesis using filter_err_exact[OF f] by (simp add: status_is_matches)
  qed
  show ?thesis using a b by blast
qed

theorem index_status_filter_only_matching_witness:
  "map_sum id (map (\<lambda>v. (rid v, status v)))
     (index_logs env_2026 (\<lambda>t. t) [''status'' \<mapsto> ''success'', ''year'' \<mapsto> ''0''] status_db) =
     Inr [(3, Some ''SUCCESS''), (1, Some ''Success'')] \<and>
   [''status'' \<mapsto> ''success'', ''year'' \<mapsto> ''0''] ''status'' = Some ''success'' \<and>
   [''status'' \<mapsto> ''success'', ''year'' \<mapsto> ''0''] ''year'' = Some ''0'' \<and>
   lower ''success'' \<noteq> ''all'' \<and>
   lower ''SUCCESS'' = lower ''success'' \<and> lower ''Success'' = lower ''success'' \<and>
   map rid (filter (status_matches ''success'')
              (map with_upload_urls (fetch_all_verifications (\<lambda>t. t) status_db))) = [3, 1]"
proof -
  let ?args = "[''status'' \<mapsto> ''success'', ''year'' \<mapsto> ''0'']"
  have e: "map_sum id (map (\<lambda>v. (rid v, status v)))
     (index_logs env_2026 (\<lambda>t. t) ?args status_db) =
     Inr [(3, Some ''SUCCESS''), (1, Some ''Success'')]"
    by code_simp
  then obtain logs where l: "index_logs env_2026 (\<lambda>t. t) ?args status_db = Inr logs"
    and m: "map (\<lambda>v. (rid v, status v)) logs = [(3, Some ''SUCCESS''), (1, Some ''Success'')]"
    by (cases "index_logs env_2026 (\<lambda>t. t) ?args status_db") auto
  have a: "?args ''status'' = Some ''success''" and y: "?args ''year'' = Some ''0''"
    and o: "?args ''name'' = None \<and> ?args ''id_number'' = None \<and> ?args ''month'' = None \<and>
            ?args ''year'' = Some ''0'' \<and> ?args ''date_from'' = None \<and> ?args ''date_to'' = None"
    by simp_all
  have n: "lower ''success'' \<noteq> ''all''" by code_simp
  note t = index_status_filter_only_matching [OF l a n]
  from m obtain v1 v2 where vs: "logs = [v1, v2]" "status v1 = Some ''SUCCESS''"
    "status v2 = Some ''Success''"
    by auto
  have "status_matches ''success'' v1" "status_matches ''success'' v2"
    using t vs(1) by auto
  hence c: "lower ''SUCCESS'' = lower ''success''" "lower ''Success'' = lower ''success''"
    using vs(2,3) by (simp_all add: status_matches_def)
  have r: "map rid logs = [3, 1]" using vs(1) m by simp
  have "logs = filter (status_matches ''success'')
                 (map with_upload_urls (fetch_all_verifications (\<lambda>t. t) status_db))"
    using t o by blast
  hence x: "map rid (filter (status_matches ''success'')
              (map with_upload_urls (fetch_all_verifications (\<lambda>t. t) status_db))) = [3, 1]"
    using r by simp
  show ?thesis using e a y n c x by blast
qed

text \<open>
  C8 as stated fails: the year filter defaults to the current year, so a request with
  \<open>status=success\<close> alone, made in 2026, leaves out the row of 2020 whose stored status
  is \<open>Success\<close>.
\<close>

theorem index_status_filter_drops_other_years:
  "map (\<lambda>r. (rid r, status r, timestamp r)) (rows status_db) =
     [(1, Some ''Success'', Some ''2020-05-05 10:00:00''),
      (2, Some ''FAILED'', Some ''2026-01-02 11:00:00''),
      (3, Some ''SUCCESS'', Some ''2026-03-04 12:00:00'')] \<and>
   lower ''Success'' = lower ''success'' \<and>
   now_year env_2026 = 2026 \<and>
   strptime_ts env_2026 ''2020-05-05 10:00:00'' = Some (2020, 5, 5, 10, 0, 0) \<and>
   map_sum id (map rid)
     (index_logs env_2026 (\<lambda>t. t) [''status'' \<mapsto> ''success''] status_db) = Inr [3]"
  by code_simp

end
